theory Spec2Isabelle
  imports Complex_Main "HOL-Library.AList" "HOL-Library.Log_Nat"
    "HOL-Library.List_Lexorder" "HOL-Library.Char_ord"
begin

section \<open>Data model (desktop\_app/model.py)\<close>

text \<open>
  A Python float is the real number it stands for (the infinities and NaN are not times),
  and comparisons, \<open>min\<close> and \<open>max\<close> are exact on these.  The sum \<open>end_time + 0.1\<close> of the
  eviction test is rounded as the addition of doubles rounds it, since a branch depends on
  it; the sum in \<open>advance\<close> and the difference and quotient in \<open>progress\<close> are taken
  exactly.  Python integers are \<open>int\<close>, strings are
  \<open>string\<close>, \<open>Optional[T]\<close> is \<open>T option\<close>.  A Python \<open>dict\<close> is an association list
  with distinct keys in insertion order: \<open>d[k] = v\<close> is \<open>AList.update k v\<close> (replace in
  place, or append), \<open>d.pop(k, None)\<close> is \<open>AList.delete k\<close>, \<open>d.get(k)\<close> is \<open>map_of d k\<close>.
  Field names that occur in several classes carry a prefix for all but one of them.
\<close>

record MachineEvent =
  time_min :: real
  time_ts :: string
  machine :: string
  event :: string
  product_id :: string
  entity_id :: string
  from_machine :: "string option"
  to_machine :: "string option"
  queue_length :: "int option"

record Transport =
  tr_product_id :: string
  tr_entity_id :: string
  tr_from_machine :: "string option"
  tr_to_machine :: "string option"
  tr_start_time :: real
  tr_end_time :: "real option"

type_synonym TransportKey = "string \<times> string"

definition progress :: "Transport \<Rightarrow> real \<Rightarrow> real" where
  "progress self clock =
     (case tr_end_time self of
        None \<Rightarrow> 0
      | Some e \<Rightarrow>
          (let duration = e - tr_start_time self
           in if duration \<le> 0 then 1
              else max 0 (min 1 ((clock - tr_start_time self) / duration))))"

record MachineState =
  ms_machine :: string
  queue :: int
  status :: string
  last_event :: "string option"
  transports_out :: "(TransportKey \<times> Transport) list"

definition MachineState_init :: "string \<Rightarrow> MachineState" where
  "MachineState_init m =
     \<lparr>ms_machine = m, queue = 0, status = ''idle'', last_event = None, transports_out = []\<rparr>"

definition color_key :: "MachineState \<Rightarrow> string" where
  "color_key self =
     (if status self = ''breakdown'' then ''breakdown''
      else if status self = ''processing'' then ''processing''
      else if queue self > 0 then ''queue''
      else ''idle'')"

record SimulationData =
  events :: "MachineEvent list"
  start_time :: real
  end_time :: real
  machines :: "string list"
  data_machine_states :: "(string \<times> MachineState) list"

datatype error = ValueError

text \<open>
  \<open>sorted(events, key=...)\<close> is a stable sort, as \<open>sort_key\<close> is; the set comprehension
  followed by \<open>sorted\<close> gives the distinct non-empty machine names in ascending order.
\<close>

definition SimulationData_init :: "MachineEvent list \<Rightarrow> error + SimulationData" where
  "SimulationData_init evs =
     (let es = sort_key time_min evs
      in if es = [] then Inl ValueError
         else
           (let ms = sort (remdups (filter (\<lambda>m. m \<noteq> []) (map machine es)))
            in Inr \<lparr>events = es,
                    start_time = time_min (hd es),
                    end_time = time_min (last es),
                    machines = ms,
                    data_machine_states = map (\<lambda>m. (m, MachineState_init m)) ms\<rparr>))"

section \<open>Playback controller (desktop\_app/controller.py)\<close>

record SimulationController =
  data :: SimulationData
  current_time :: real
  pointer :: nat
  machine_states :: "(string \<times> MachineState) list"
  transports :: "(TransportKey \<times> Transport) list"
  active_transports :: "(TransportKey \<times> Transport) list"

text \<open>Python truthiness of an optional string, and the operator \<open>or\<close> on such values.\<close>

definition truthy :: "string option \<Rightarrow> bool" where
  "truthy a = (case a of None \<Rightarrow> False | Some x \<Rightarrow> x \<noteq> [])"

definition py_or :: "string option \<Rightarrow> string option \<Rightarrow> string option" where
  "py_or a b = (if truthy a then a else b)"

definition str_or :: "string \<Rightarrow> string \<Rightarrow> string" where
  "str_or a b = (if a \<noteq> [] then a else b)"

definition startswith :: "string \<Rightarrow> string \<Rightarrow> bool" where
  "startswith s p = (take (length p) s = p)"

definition reset :: "SimulationController \<Rightarrow> SimulationController" where
  "reset self =
     self\<lparr>current_time := start_time (data self),
          pointer := 0,
          machine_states := map (\<lambda>name. (name, MachineState_init name)) (machines (data self)),
          transports := [],
          active_transports := []\<rparr>"

text \<open>The constructor stores the data and calls \<open>reset\<close>, which sets every other field.\<close>

definition SimulationController_init :: "SimulationData \<Rightarrow> SimulationController" where
  "SimulationController_init d =
     reset \<lparr>data = d, current_time = 0, pointer = 0, machine_states = [],
            transports = [], active_transports = []\<rparr>"

definition transport_key :: "MachineEvent \<Rightarrow> TransportKey" where
  "transport_key e =
     (str_or (product_id e) (entity_id e), str_or (entity_id e) (product_id e))"

definition handle_transport :: "MachineEvent \<Rightarrow> SimulationController \<Rightarrow> SimulationController" where
  "handle_transport e self =
     (let key = transport_key e;
          transport = map_of (transports self) key
      in if event e = ''TRANSPORT_START'' then
           self\<lparr>transports :=
             AList.update key
               \<lparr>tr_product_id = product_id e,
                tr_entity_id = entity_id e,
                tr_from_machine = py_or (from_machine e) (Some (machine e)),
                tr_to_machine = to_machine e,
                tr_start_time = time_min e,
                tr_end_time = None\<rparr>
               (transports self)\<rparr>
         else if event e = ''TRANSPORT_END'' \<and> transport \<noteq> None then
           (case transport of
              None \<Rightarrow> self
            | Some t \<Rightarrow>
                (let t1 = (if \<not> truthy (tr_to_machine t)
                           then t\<lparr>tr_to_machine := py_or (Some (machine e)) (to_machine e)\<rparr>
                           else t);
                     t2 = t1\<lparr>tr_end_time := Some (time_min e)\<rparr>
                 in self\<lparr>transports := AList.update key t2 (transports self)\<rparr>))
         else if event e = ''TRANSPORT_CANCEL'' \<and> transport \<noteq> None then
           self\<lparr>transports := AList.delete key (transports self)\<rparr>
         else self)"

definition apply_event :: "MachineEvent \<Rightarrow> SimulationController \<Rightarrow> SimulationController" where
  "apply_event e self =
     (let state0 = (case map_of (machine_states self) (machine e) of
                      None \<Rightarrow> MachineState_init (machine e)
                    | Some st \<Rightarrow> st);
          state1 = state0\<lparr>last_event := Some (event e)\<rparr>;
          state2 = (case queue_length e of
                      None \<Rightarrow> state1
                    | Some q \<Rightarrow> state1\<lparr>queue := max 0 q\<rparr>);
          put = (\<lambda>st. self\<lparr>machine_states := AList.update (machine e) st (machine_states self)\<rparr>)
      in if event e = ''QUEUE_IN'' then put (state2\<lparr>queue := max 0 (queue state2 + 1)\<rparr>)
         else if event e = ''QUEUE_OUT'' then put (state2\<lparr>queue := max 0 (queue state2 - 1)\<rparr>)
         else if event e = ''PROC_START'' then put (state2\<lparr>status := ''processing''\<rparr>)
         else if event e \<in> {''PROC_END'', ''PROC_COMPLETE''} then put (state2\<lparr>status := ''idle''\<rparr>)
         else if event e = ''BREAKDOWN_START'' then put (state2\<lparr>status := ''breakdown''\<rparr>)
         else if event e \<in> {''BREAKDOWN_END'', ''BREAKDOWN_CLEAR''} then put (state2\<lparr>status := ''idle''\<rparr>)
         else if startswith (event e) ''TRANSPORT_'' then handle_transport e (put state2)
         else put state2)"

text \<open>
  Addition of doubles (IEEE 754 binary64, round to nearest, ties to even): the exact sum
  is rounded to a multiple of the quantum \<open>2 ^ (k - 52)\<close>, where \<open>2 ^ k\<close> is the largest
  power of two not above its magnitude and \<open>k\<close> is at least \<open>-1022\<close> (below that the
  doubles are equally spaced).  The sum of a finite double and 0.1 never overflows.
\<close>

definition pow2 :: "int \<Rightarrow> real" where
  "pow2 k = (if 0 \<le> k then 2 ^ nat k else 1 / 2 ^ nat (- k))"

definition ilog2 :: "real \<Rightarrow> int" where
  "ilog2 x =
     (if 1 \<le> x then bitlen \<lfloor>x\<rfloor> - 1
      else (let m = bitlen \<lfloor>1 / x\<rfloor> - 1
            in if 1 / x = 2 ^ nat m then - m else - m - 1))"

definition round_half_even :: "real \<Rightarrow> int" where
  "round_half_even m =
     (let f = \<lfloor>m\<rfloor>; d = m - of_int f
      in if d < 1 / 2 then f
         else if 1 / 2 < d then f + 1
         else if even f then f else f + 1)"

definition double_round :: "real \<Rightarrow> real" where
  "double_round x =
     (if x = 0 then 0
      else (let q = max (ilog2 \<bar>x\<bar>) (- 1022) - 52
            in of_int (round_half_even (x / pow2 q)) * pow2 q))"

definition float_add :: "real \<Rightarrow> real \<Rightarrow> real" where
  "float_add x y = double_round (x + y)"

text \<open>The Python literal \<open>0.1\<close>: the double nearest to one tenth.\<close>

definition grace :: real where
  "grace = 3602879701896397 / 2 ^ 55"

text \<open>
  The snapshot refresh walks the registry once: an entry whose end time plus 0.1 is below
  the current time is queued for removal, every other entry is cloned into the snapshot.
\<close>

definition expired :: "real \<Rightarrow> Transport \<Rightarrow> bool" where
  "expired now t =
     (case tr_end_time t of None \<Rightarrow> False | Some e \<Rightarrow> now > float_add e grace)"

definition clone_transport :: "Transport \<Rightarrow> Transport" where
  "clone_transport t =
     (if tr_to_machine t = None
      then t\<lparr>tr_to_machine := py_or (tr_to_machine t) (tr_from_machine t)\<rparr>
      else t)"

fun refresh_loop ::
  "real \<Rightarrow> (TransportKey \<times> Transport) list \<Rightarrow> (TransportKey \<times> Transport) list \<Rightarrow>
   TransportKey list \<Rightarrow> (TransportKey \<times> Transport) list \<times> TransportKey list" where
  "refresh_loop now [] active to_remove = (active, to_remove)"
| "refresh_loop now ((key, t) # items) active to_remove =
     (if expired now t then refresh_loop now items active (to_remove @ [key])
      else refresh_loop now items (AList.update key (clone_transport t) active) to_remove)"

definition refresh_active_transports :: "SimulationController \<Rightarrow> SimulationController" where
  "refresh_active_transports self =
     (case refresh_loop (current_time self) (transports self) [] [] of
        (active, to_remove) \<Rightarrow>
          self\<lparr>active_transports := active,
               transports := fold AList.delete to_remove (transports self)\<rparr>)"

function advance_loop :: "real \<Rightarrow> SimulationController \<Rightarrow> SimulationController" where
  "advance_loop target self =
     (if pointer self < length (events (data self))
         \<and> time_min (events (data self) ! pointer self) \<le> target
      then advance_loop target
             ((apply_event (events (data self) ! pointer self) self)
                \<lparr>pointer := pointer self + 1\<rparr>)
      else self)"
  by pat_completeness auto
termination
  by (relation "measure (\<lambda>(t, s). length (events (data s)) - pointer s)")
     (auto simp: apply_event_def handle_transport_def Let_def split: option.splits)

declare advance_loop.simps [simp del]

definition advance_to :: "real \<Rightarrow> SimulationController \<Rightarrow> SimulationController" where
  "advance_to target_time self =
     (let target = min (max target_time (start_time (data self))) (end_time (data self));
          s1 = advance_loop target self
      in refresh_active_transports (s1\<lparr>current_time := target\<rparr>))"

definition seek :: "real \<Rightarrow> SimulationController \<Rightarrow> SimulationController" where
  "seek target_time self =
     advance_to target_time (if target_time < current_time self then reset self else self)"

definition advance :: "real \<Rightarrow> SimulationController \<Rightarrow> SimulationController" where
  "advance delta_minutes self = advance_to (current_time self + delta_minutes) self"

definition iter_states :: "SimulationController \<Rightarrow> MachineState list" where
  "iter_states self = map snd (machine_states self)"

section \<open>Call sequences and the events they apply\<close>

text \<open>The public operations of the controller, and a sequence of calls run in order.\<close>

datatype op = Reset | Advance real | AdvanceTo real | Seek real

fun run_op :: "op \<Rightarrow> SimulationController \<Rightarrow> SimulationController" where
  "run_op Reset self = reset self"
| "run_op (Advance delta_minutes) self = advance delta_minutes self"
| "run_op (AdvanceTo target_time) self = advance_to target_time self"
| "run_op (Seek target_time) self = seek target_time self"

definition run_ops :: "op list \<Rightarrow> SimulationController \<Rightarrow> SimulationController" where
  "run_ops ops self = fold run_op ops self"

text \<open>
  The loop of \<open>advance_to\<close> once more, recording in a ghost list the value of the pointer
  at each call of \<open>apply_event\<close>, that is, the index of each event it applies.
\<close>

function advance_loop_trace ::
  "real \<Rightarrow> SimulationController \<Rightarrow> nat list \<Rightarrow> SimulationController \<times> nat list" where
  "advance_loop_trace target self applied =
     (if pointer self < length (events (data self))
         \<and> time_min (events (data self) ! pointer self) \<le> target
      then advance_loop_trace target
             ((apply_event (events (data self) ! pointer self) self)
                \<lparr>pointer := pointer self + 1\<rparr>)
             (applied @ [pointer self])
      else (self, applied))"
  by pat_completeness auto
termination
  by (relation "measure (\<lambda>(t, s, a). length (events (data s)) - pointer s)")
     (auto simp: apply_event_def handle_transport_def Let_def split: option.splits)

declare advance_loop_trace.simps [simp del]

definition clamp_time :: "SimulationData \<Rightarrow> real \<Rightarrow> real" where
  "clamp_time d target_time = min (max target_time (start_time d)) (end_time d)"

text \<open>The state in which \<open>advance_to\<close> calls the snapshot refresh.\<close>

definition before_refresh :: "real \<Rightarrow> SimulationController \<Rightarrow> SimulationController" where
  "before_refresh target_time self =
     (advance_loop (clamp_time (data self) target_time) self)
       \<lparr>current_time := clamp_time (data self) target_time\<rparr>"

definition applied_by_advance_to :: "real \<Rightarrow> SimulationController \<Rightarrow> nat list" where
  "applied_by_advance_to target_time self =
     snd (advance_loop_trace (clamp_time (data self) target_time) self [])"

fun applied_by_op :: "op \<Rightarrow> SimulationController \<Rightarrow> nat list" where
  "applied_by_op Reset self = []"
| "applied_by_op (Advance delta_minutes) self =
     applied_by_advance_to (current_time self + delta_minutes) self"
| "applied_by_op (AdvanceTo target_time) self = applied_by_advance_to target_time self"
| "applied_by_op (Seek target_time) self =
     applied_by_advance_to target_time
       (if target_time < current_time self then reset self else self)"

fun applied_by_ops :: "op list \<Rightarrow> SimulationController \<Rightarrow> nat list" where
  "applied_by_ops [] self = []"
| "applied_by_ops (c # cs) self = applied_by_op c self @ applied_by_ops cs (run_op c self)"

text \<open>The pointer after each call of a sequence.\<close>

fun pointers_after :: "op list \<Rightarrow> SimulationController \<Rightarrow> nat list" where
  "pointers_after [] self = []"
| "pointers_after (c # cs) self = pointer (run_op c self) # pointers_after cs (run_op c self)"

text \<open>
  States reached from a fresh engine without moving the clock backwards other than
  through \<open>seek\<close> or \<open>reset\<close>.
\<close>

inductive reach_fwd :: "SimulationData \<Rightarrow> SimulationController \<Rightarrow> bool" for d where
  fresh: "reach_fwd d (SimulationController_init d)"
| reset: "reach_fwd d s \<Longrightarrow> reach_fwd d (reset s)"
| seek: "reach_fwd d s \<Longrightarrow> reach_fwd d (seek t s)"
| advance_to: "reach_fwd d s \<Longrightarrow> current_time s \<le> t \<Longrightarrow> reach_fwd d (advance_to t s)"
| advance: "reach_fwd d s \<Longrightarrow> 0 \<le> delta \<Longrightarrow> reach_fwd d (advance delta s)"

text \<open>The engine after the first \<open>n\<close> events of the log, with no snapshot refresh.\<close>

definition replay :: "SimulationData \<Rightarrow> nat \<Rightarrow> SimulationController" where
  "replay d n = fold apply_event (take n (events d)) (SimulationController_init d)"

text \<open>The events a call of the loop with the given target applies to the given state.\<close>

definition due :: "real \<Rightarrow> SimulationController \<Rightarrow> MachineEvent list" where
  "due target s = takeWhile (\<lambda>e. time_min e \<le> target) (drop (pointer s) (events (data s)))"

text \<open>Every machine state of the engine has a queue of at least 0.\<close>

definition queue_ok :: "SimulationController \<Rightarrow> bool" where
  "queue_ok s = (\<forall>st \<in> set (iter_states s). 0 \<le> queue st)"

text \<open>The keys of the transport registry are distinct, as those of a dictionary are.\<close>

definition reg_ok :: "SimulationController \<Rightarrow> bool" where
  "reg_ok s = distinct (map fst (transports s))"

text \<open>The registry entries a snapshot refresh at the given time does not evict.\<close>

definition kept :: "real \<Rightarrow> (TransportKey \<times> Transport) list \<Rightarrow> (TransportKey \<times> Transport) list" where
  "kept now items = filter (\<lambda>kt. \<not> expired now (snd kt)) items"

text \<open>A TRANSPORT\_START event with the given identity key.\<close>

definition is_start_for :: "TransportKey \<Rightarrow> MachineEvent \<Rightarrow> bool" where
  "is_start_for k e = (event e = ''TRANSPORT_START'' \<and> transport_key e = k)"

text \<open>The keys of the transport registry.\<close>

definition tkeys :: "SimulationController \<Rightarrow> TransportKey set" where
  "tkeys s = fst ` set (transports s)"

text \<open>Every entry of the first dictionary is an entry of the second, with the same value.\<close>

definition sub_registry ::
  "(TransportKey \<times> Transport) list \<Rightarrow> (TransportKey \<times> Transport) list \<Rightarrow> bool" where
  "sub_registry a b = (\<forall>k t. map_of a k = Some t \<longrightarrow> map_of b k = Some t)"

text \<open>
  What holds of an engine whose clock has only moved forward since its last reset: every
  consumed event is due at the current time, the machine states are those of replaying
  the consumed events, and the registry holds entries of that replay only.
\<close>

definition fwd_inv :: "SimulationData \<Rightarrow> SimulationController \<Rightarrow> bool" where
  "fwd_inv d s =
     (data s = d \<and> current_time s \<le> end_time d \<and> pointer s \<le> length (events d)
      \<and> (\<forall>e \<in> set (take (pointer s) (events d)). time_min e \<le> current_time s)
      \<and> machine_states s = machine_states (replay d (pointer s))
      \<and> sub_registry (transports s) (transports (replay d (pointer s)))
      \<and> reg_ok s)"

text \<open>
  A log ends no transport twice: no TRANSPORT\_END event of it meets, in a replay from
  scratch, a registry entry whose end time is already set.
\<close>

definition end_ok :: "MachineEvent \<Rightarrow> SimulationController \<Rightarrow> bool" where
  "end_ok e s =
     (event e \<noteq> ''TRANSPORT_END''
      \<or> (case map_of (transports s) (transport_key e) of
            None \<Rightarrow> True
          | Some t \<Rightarrow> tr_end_time t = None))"

fun ends_once :: "MachineEvent list \<Rightarrow> SimulationController \<Rightarrow> bool" where
  "ends_once [] s = True"
| "ends_once (e # es) s = (end_ok e s \<and> ends_once es (apply_event e s))"

definition well_ended :: "SimulationData \<Rightarrow> bool" where
  "well_ended d = ends_once (events d) (SimulationController_init d)"

text \<open>Every entry the second dictionary has and the first lacks has expired.\<close>

definition missing_expired ::
  "real \<Rightarrow> (TransportKey \<times> Transport) list \<Rightarrow> (TransportKey \<times> Transport) list \<Rightarrow> bool" where
  "missing_expired now a b =
     (\<forall>k t. map_of b k = Some t \<and> map_of a k = None \<longrightarrow> expired now t)"

text \<open>The forward invariant, and the registry lacks expired entries of the replay only.\<close>

definition fwd_exact :: "SimulationData \<Rightarrow> SimulationController \<Rightarrow> bool" where
  "fwd_exact d s =
     (fwd_inv d s
      \<and> missing_expired (current_time s) (transports s) (transports (replay d (pointer s))))"

section \<open>Concrete logs\<close>

text \<open>
  The log of the running example: M1 starts processing at 0, product P1 leaves M1 for M2
  at 5, M1 stops processing at 10 and P1 arrives at M2 at 15.
\<close>

definition mk_event ::
  "real \<Rightarrow> string \<Rightarrow> string \<Rightarrow> string \<Rightarrow> string option \<Rightarrow> int option \<Rightarrow> MachineEvent" where
  "mk_event t m k p dest q =
     \<lparr>time_min = t, time_ts = [], machine = m, event = k, product_id = p, entity_id = [],
      from_machine = None, to_machine = dest, queue_length = q\<rparr>"

definition scenario_log :: "MachineEvent list" where
  "scenario_log =
     [mk_event 0 ''M1'' ''PROC_START'' [] None None,
      mk_event 5 ''M1'' ''TRANSPORT_START'' ''P1'' (Some ''M2'') None,
      mk_event 10 ''M1'' ''PROC_END'' [] None None,
      mk_event 15 ''M2'' ''TRANSPORT_END'' ''P1'' None None]"

definition scenario_data :: SimulationData where
  "scenario_data = projr (SimulationData_init scenario_log)"

definition scenario_fresh :: SimulationController where
  "scenario_fresh = SimulationController_init scenario_data"

text \<open>
  A second log: queue events with negative queue lengths, and a transport event that names
  no machine.
\<close>

definition queue_log :: "MachineEvent list" where
  "queue_log =
     [mk_event 0 ''M1'' ''QUEUE_OUT'' [] None (Some (- 5)),
      mk_event 1 ''M1'' ''QUEUE_OUT'' [] None None,
      mk_event 2 ''M1'' ''QUEUE_IN'' [] None (Some (- 2)),
      mk_event 3 [] ''TRANSPORT_START'' ''P1'' (Some ''M1'') None]"

definition queue_data :: SimulationData where
  "queue_data = projr (SimulationData_init queue_log)"

text \<open>A third log: the transport P1 ends at 1 and a second end event for it comes at 6.\<close>

definition eviction_log :: "MachineEvent list" where
  "eviction_log =
     [mk_event 0 ''M1'' ''TRANSPORT_START'' ''P1'' (Some ''M2'') None,
      mk_event 1 ''M2'' ''TRANSPORT_END'' ''P1'' None None,
      mk_event 5 ''M1'' ''PROC_START'' [] None None,
      mk_event 6 ''M2'' ''TRANSPORT_END'' ''P1'' None None,
      mk_event 9 ''M1'' ''PROC_END'' [] None None]"

definition eviction_data :: SimulationData where
  "eviction_data = projr (SimulationData_init eviction_log)"

definition eviction_fresh :: SimulationController where
  "eviction_fresh = SimulationController_init eviction_data"

text \<open>A fourth log: the transport P1 ends at 0.5 and a second end event for it comes at 3.\<close>

definition double_end_log :: "MachineEvent list" where
  "double_end_log =
     [mk_event 0 ''M1'' ''TRANSPORT_START'' ''P1'' (Some ''M2'') None,
      mk_event (1 / 2) ''M2'' ''TRANSPORT_END'' ''P1'' None None,
      mk_event 3 ''M2'' ''TRANSPORT_END'' ''P1'' None None]"

definition double_end_data :: SimulationData where
  "double_end_data = projr (SimulationData_init double_end_log)"

definition double_end_fresh :: SimulationController where
  "double_end_fresh = SimulationController_init double_end_data"

section \<open>Basic facts about the operations\<close>

lemma data_apply_event [simp]: "data (apply_event e s) = data s"
  by (simp add: apply_event_def handle_transport_def Let_def split: option.splits)

lemma pointer_apply_event [simp]: "pointer (apply_event e s) = pointer s"
  by (simp add: apply_event_def handle_transport_def Let_def split: option.splits)

lemma machine_states_handle_transport [simp]:
  "machine_states (handle_transport e s) = machine_states s"
  by (simp add: handle_transport_def Let_def split: option.splits)

lemma current_time_handle_transport [simp]:
  "current_time (handle_transport e s) = current_time s"
  by (simp add: handle_transport_def Let_def split: option.splits)

lemma active_transports_handle_transport [simp]:
  "active_transports (handle_transport e s) = active_transports s"
  by (simp add: handle_transport_def Let_def split: option.splits)

lemma current_time_apply_event [simp]: "current_time (apply_event e s) = current_time s"
  by (simp add: apply_event_def Let_def)

lemma active_transports_apply_event [simp]:
  "active_transports (apply_event e s) = active_transports s"
  by (simp add: apply_event_def Let_def)

lemma transports_handle_transport_cong:
  "transports s = transports s' \<Longrightarrow>
   transports (handle_transport e s) = transports (handle_transport e s')"
  by (simp add: handle_transport_def Let_def split: option.splits)

lemma transports_apply_event:
  "transports (apply_event e s) =
     (if startswith (event e) ''TRANSPORT_'' then transports (handle_transport e s)
      else transports s)"
  by (auto simp: apply_event_def Let_def startswith_def
      intro: transports_handle_transport_cong)

lemma sort_key_Nil_iff: "sort_key f xs = [] \<longleftrightarrow> xs = []"
  using length_sort [of f xs] by (metis length_0_conv)

section \<open>Rounding to a double\<close>

lemma pow2_pos [simp]: "0 < pow2 k"
  by (simp add: pow2_def)

lemma abs_pow2 [simp]: "\<bar>pow2 k\<bar> = pow2 k"
  by (simp add: pow2_def)

lemma pow2_nonzero [simp]: "pow2 k \<noteq> 0"
  by (simp add: pow2_def)

lemma pow2_Suc: "pow2 (k + 1) = 2 * pow2 k"
proof (cases "0 \<le> k")
  case True
  then show ?thesis by (simp add: pow2_def nat_add_distrib)
next
  case False
  then have "nat (- k) = Suc (nat (- k - 1))" by simp
  then show ?thesis using False by (simp add: pow2_def)
qed

lemma ilog2_bounds:
  assumes "0 < x"
  shows "pow2 (ilog2 x) \<le> x \<and> x < pow2 (ilog2 x + 1)"
proof (cases "1 \<le> x")
  case True
  let ?n = "\<lfloor>x\<rfloor>"
  have n: "0 < ?n" using True by simp
  have b: "2 ^ nat (bitlen ?n - 1) \<le> ?n \<and> ?n < 2 ^ nat (bitlen ?n)"
    using bitlen_bounds [OF n] by simp
  have ge: "1 \<le> bitlen ?n" using n by (simp add: bitlen_def floorlog_def)
  have lo: "(2::real) ^ nat (bitlen ?n - 1) \<le> x"
  proof -
    have "(2::real) ^ nat (bitlen ?n - 1) = of_int (2 ^ nat (bitlen ?n - 1))" by simp
    also have "\<dots> \<le> of_int ?n" using b by (intro of_int_le_iff [THEN iffD2]) simp
    also have "\<dots> \<le> x" by simp
    finally show ?thesis .
  qed
  have hi: "x < (2::real) ^ nat (bitlen ?n)"
  proof -
    have "?n + 1 \<le> 2 ^ nat (bitlen ?n)" using b by simp
    then have "of_int (?n + 1) \<le> (of_int (2 ^ nat (bitlen ?n)) :: real)"
      by (intro of_int_le_iff [THEN iffD2])
    moreover have "x < of_int (?n + 1)" by linarith
    ultimately have "x < (of_int (2 ^ nat (bitlen ?n)) :: real)" by linarith
    then show ?thesis by simp
  qed
  have "nat (bitlen ?n - 1 + 1) = nat (bitlen ?n)" by simp
  then show ?thesis
    using True lo hi ge by (simp add: ilog2_def pow2_def)
next
  case False
  let ?y = "1 / x"
  let ?n = "\<lfloor>?y\<rfloor>"
  let ?m = "bitlen ?n - 1"
  have y1: "1 < ?y" using False assms by simp
  have n: "0 < ?n" using y1 by simp
  have b: "2 ^ nat ?m \<le> ?n \<and> ?n < 2 ^ nat (bitlen ?n)"
    using bitlen_bounds [OF n] by simp
  have ge: "0 \<le> ?m" using n by (simp add: bitlen_def floorlog_def)
  have lo: "(2::real) ^ nat ?m \<le> ?y"
  proof -
    have "(2::real) ^ nat ?m = of_int (2 ^ nat ?m)" by simp
    also have "\<dots> \<le> of_int ?n" using b by (intro of_int_le_iff [THEN iffD2]) simp
    also have "\<dots> \<le> ?y" by simp
    finally show ?thesis .
  qed
  have hi: "?y < (2::real) ^ nat (?m + 1)"
  proof -
    have "?n + 1 \<le> 2 ^ nat (bitlen ?n)" using b by simp
    then have "of_int (?n + 1) \<le> (of_int (2 ^ nat (bitlen ?n)) :: real)"
      by (intro of_int_le_iff [THEN iffD2])
    moreover have "?y < of_int (?n + 1)" by linarith
    ultimately have "?y < (of_int (2 ^ nat (bitlen ?n)) :: real)" by linarith
    then show ?thesis by simp
  qed
  have xinv: "x = 1 / ?y" using assms by simp
  show ?thesis
  proof (cases "?y = 2 ^ nat ?m")
    case True
    have k: "ilog2 x = - ?m" using False True by (simp add: ilog2_def Let_def)
    have x: "x = 1 / 2 ^ nat ?m" using xinv True by simp
    have "pow2 (- ?m) = 1 / 2 ^ nat ?m" using ge by (cases "?m = 0") (simp_all add: pow2_def)
    then have a: "pow2 (- ?m) \<le> x" using x by simp
    have e: "pow2 (- ?m) = x" using \<open>pow2 (- ?m) = 1 / 2 ^ nat ?m\<close> x by simp
    have "x < 2 * pow2 (- ?m)" unfolding e using assms by linarith
    then have "x < pow2 (- ?m + 1)" using pow2_Suc [of "- ?m"] by simp
    then show ?thesis using a k by simp
  next
    case neq: False
    have k: "ilog2 x = - ?m - 1" using False neq by (simp add: ilog2_def Let_def)
    have lt: "(2::real) ^ nat ?m < ?y" using lo neq by simp
    have p1: "pow2 (- ?m - 1) = 1 / 2 ^ nat (?m + 1)" using ge by (simp add: pow2_def)
    have p0: "pow2 (- ?m) = 1 / 2 ^ nat ?m" using ge by (cases "?m = 0") (simp_all add: pow2_def)
    have a: "pow2 (- ?m - 1) \<le> x"
    proof -
      have "1 < 2 ^ nat (?m + 1) * x" using hi assms by (simp add: field_simps)
      then have "1 / 2 ^ nat (?m + 1) < x" by (simp add: field_simps)
      then show ?thesis using p1 by simp
    qed
    have c: "x < pow2 (- ?m)"
    proof -
      have "2 ^ nat ?m * x < 1" using lt assms by (simp add: field_simps)
      then have "x < 1 / 2 ^ nat ?m" by (simp add: field_simps)
      then show ?thesis using p0 by simp
    qed
    have "pow2 (- ?m - 1 + 1) = pow2 (- ?m)" by simp
    then show ?thesis using a c k by simp
  qed
qed


lemma round_half_even_cases:
  "(of_int (round_half_even m) = (of_int \<lfloor>m\<rfloor> :: real) \<and> m - of_int \<lfloor>m\<rfloor> \<le> 1 / 2)
   \<or> (of_int (round_half_even m) = (of_int \<lfloor>m\<rfloor> :: real) + 1 \<and> 1 / 2 \<le> m - of_int \<lfloor>m\<rfloor>)"
  by (simp add: round_half_even_def Let_def)

lemma round_half_even_error: "\<bar>of_int (round_half_even m) - m\<bar> \<le> 1 / 2"
proof -
  have "of_int \<lfloor>m\<rfloor> \<le> m" "m < of_int \<lfloor>m\<rfloor> + 1" by linarith+
  then show ?thesis using round_half_even_cases [of m] by linarith
qed

lemma round_half_even_nearest:
  "\<bar>of_int (round_half_even m) - m\<bar> \<le> \<bar>of_int j - m\<bar>"
proof -
  have f: "of_int \<lfloor>m\<rfloor> \<le> m" "m < of_int \<lfloor>m\<rfloor> + 1" by linarith+
  have "j \<le> \<lfloor>m\<rfloor> \<or> \<lfloor>m\<rfloor> + 1 \<le> j" by linarith
  then have "of_int j \<le> (of_int \<lfloor>m\<rfloor> :: real) \<or> (of_int \<lfloor>m\<rfloor> :: real) + 1 \<le> of_int j"
    by (metis of_int_1 of_int_add of_int_le_iff)
  then show ?thesis using f round_half_even_cases [of m] by linarith
qed

lemma round_half_even_tie:
  "m - of_int \<lfloor>m\<rfloor> = 1 / 2 \<Longrightarrow> even (round_half_even m)"
  by (simp add: round_half_even_def Let_def)

lemma double_round_error:
  assumes "x \<noteq> 0"
  shows "\<bar>double_round x - x\<bar> \<le> pow2 (max (ilog2 \<bar>x\<bar>) (- 1022) - 52) / 2"
proof -
  let ?q = "max (ilog2 \<bar>x\<bar>) (- 1022) - 52"
  let ?r = "round_half_even (x / pow2 ?q)"
  have "double_round x - x = (of_int ?r - x / pow2 ?q) * pow2 ?q"
    using assms by (simp add: double_round_def Let_def algebra_simps)
  then have "\<bar>double_round x - x\<bar> = \<bar>of_int ?r - x / pow2 ?q\<bar> * pow2 ?q"
    using pow2_pos [of ?q] by (simp add: abs_mult abs_of_pos)
  also have "\<dots> \<le> (1 / 2) * pow2 ?q"
    by (intro mult_right_mono round_half_even_error) (simp add: less_imp_le)
  finally show ?thesis by simp
qed

section \<open>The logs are well formed\<close>

lemma scenario_data_eq:
  "scenario_data =
     \<lparr>events = scenario_log, start_time = 0, end_time = 15, machines = [''M1'', ''M2''],
      data_machine_states =
        [(''M1'', MachineState_init ''M1''), (''M2'', MachineState_init ''M2'')]\<rparr>"
  by (simp add: scenario_data_def scenario_log_def mk_event_def SimulationData_init_def)

lemma scenario_data_ok: "SimulationData_init scenario_log = Inr scenario_data"
  by (simp add: scenario_data_def scenario_log_def mk_event_def SimulationData_init_def)

section \<open>The running example, replayed\<close>

text \<open>
  Claim C1, as amended.  On the running example, replayed from a fresh engine by
  successive calls: after \<open>advance_to 7\<close> machine M1 is processing and the one tracked
  transport P1 has no end time and progress 0; after \<open>advance_to 15\<close> its end time is 15
  and its progress is 1; after \<open>advance_to 15.2\<close> it is still in the snapshot.  Every
  target is clamped into the time span of the log, so \<open>advance_to 20\<close> leaves the clock
  at 15, inside the grace period, and the transport is still in the snapshot.
\<close>

theorem scenario_replay:
  "(let s1 = advance_to 7 scenario_fresh;
        s2 = advance_to 15 s1;
        s3 = advance_to (152 / 10) s2;
        s4 = advance_to 20 s3
    in map_option status (map_of (machine_states s1) ''M1'') = Some ''processing''
       \<and> map fst (active_transports s1) = [(''P1'', ''P1'')]
       \<and> map (tr_end_time \<circ> snd) (active_transports s1) = [None]
       \<and> map (\<lambda>kt. progress (snd kt) (current_time s1)) (active_transports s1) = [0]
       \<and> map fst (active_transports s2) = [(''P1'', ''P1'')]
       \<and> map (tr_end_time \<circ> snd) (active_transports s2) = [Some 15]
       \<and> map (\<lambda>kt. progress (snd kt) (current_time s2)) (active_transports s2) = [1]
       \<and> map fst (active_transports s3) = [(''P1'', ''P1'')]
       \<and> current_time s3 = 15
       \<and> current_time s4 = 15
       \<and> map fst (active_transports s4) = [(''P1'', ''P1'')])"
  by code_simp

text \<open>
  The claim as it was stated fails at its last step: after \<open>advance_to 20\<close> the transport
  P1 is not absent from the snapshot.
\<close>

theorem scenario_transport_not_evicted:
  "\<not> (map_of (active_transports
        (advance_to 20 (advance_to (152 / 10) (advance_to 15 (advance_to 7 scenario_fresh)))))
        (''P1'', ''P1'') = None)"
  by code_simp

section \<open>Transport progress\<close>

text \<open>
  Claim C5.  \<open>progress\<close> is 0 while the end time is unset; with an end time it is 1 when
  the duration is not positive and otherwise the elapsed fraction clamped into the unit
  interval; in every case the value lies between 0 and 1.
\<close>

theorem progress_spec:
  "(tr_end_time t = None \<longrightarrow> progress t clock = 0)
   \<and> (\<forall>e. tr_end_time t = Some e \<and> e - tr_start_time t \<le> 0 \<longrightarrow> progress t clock = 1)
   \<and> (\<forall>e. tr_end_time t = Some e \<and> e - tr_start_time t > 0 \<longrightarrow>
          progress t clock = max 0 (min 1 ((clock - tr_start_time t) / (e - tr_start_time t))))
   \<and> 0 \<le> progress t clock \<and> progress t clock \<le> 1"
  by (auto simp: progress_def Let_def split: option.splits)

theorem progress_spec_witness:
  "progress \<lparr>tr_product_id = ''P1'', tr_entity_id = [], tr_from_machine = Some ''M1'',
      tr_to_machine = Some ''M2'', tr_start_time = 5, tr_end_time = Some 15\<rparr> 7 = 1 / 5
   \<and> progress \<lparr>tr_product_id = ''P1'', tr_entity_id = [], tr_from_machine = Some ''M1'',
      tr_to_machine = Some ''M2'', tr_start_time = 5, tr_end_time = Some 5\<rparr> 7 = 1
   \<and> progress \<lparr>tr_product_id = ''P1'', tr_entity_id = [], tr_from_machine = Some ''M1'',
      tr_to_machine = Some ''M2'', tr_start_time = 5, tr_end_time = None\<rparr> 7 = 0"
  using progress_spec [of "\<lparr>tr_product_id = ''P1'', tr_entity_id = [],
      tr_from_machine = Some ''M1'', tr_to_machine = Some ''M2'', tr_start_time = 5,
      tr_end_time = Some 15\<rparr>" 7]
    progress_spec [of "\<lparr>tr_product_id = ''P1'', tr_entity_id = [],
      tr_from_machine = Some ''M1'', tr_to_machine = Some ''M2'', tr_start_time = 5,
      tr_end_time = Some 5\<rparr>" 7]
    progress_spec [of "\<lparr>tr_product_id = ''P1'', tr_entity_id = [],
      tr_from_machine = Some ''M1'', tr_to_machine = Some ''M2'', tr_start_time = 5,
      tr_end_time = None\<rparr>" 7]
  by simp

section \<open>Queue updates of a single event\<close>

text \<open>
  Claim C4.  An event that carries a queue length and is of kind QUEUE\_IN or QUEUE\_OUT
  first overrides the queue with the length floored at 0 and then adjusts that value by
  one, again floored at 0.
\<close>

theorem queue_override_then_adjust:
  assumes "queue_length e = Some q"
    and "event e = ''QUEUE_IN'' \<or> event e = ''QUEUE_OUT''"
  shows "\<exists>st. map_of (machine_states (apply_event e s)) (machine e) = Some st
           \<and> queue st = (if event e = ''QUEUE_IN'' then max 0 (max 0 q + 1)
                         else max 0 (max 0 q - 1))"
  using assms by (auto simp: apply_event_def Let_def update_conv')

theorem queue_override_then_adjust_witness:
  "(\<exists>st. map_of (machine_states
            (apply_event (mk_event 1 ''M1'' ''QUEUE_IN'' [] None (Some (- 3))) scenario_fresh))
            ''M1'' = Some st \<and> queue st = 1)
   \<and> (\<exists>st. map_of (machine_states
            (apply_event (mk_event 1 ''M1'' ''QUEUE_OUT'' [] None (Some 4)) scenario_fresh))
            ''M1'' = Some st \<and> queue st = 3)"
  using queue_override_then_adjust
      [of "mk_event 1 ''M1'' ''QUEUE_IN'' [] None (Some (- 3))" "- 3" scenario_fresh]
    queue_override_then_adjust
      [of "mk_event 1 ''M1'' ''QUEUE_OUT'' [] None (Some 4)" 4 scenario_fresh]
  by (simp add: mk_event_def)

section \<open>Construction of the event log\<close>

text \<open>
  Claim C8.  Constructing \<open>SimulationData\<close> from no events raises the error; from at least
  one event it succeeds, its events are the given ones sorted by time, the start time is
  the time of the first of them and the end time is the time of the last.
\<close>

theorem SimulationData_init_spec:
  "SimulationData_init [] = Inl ValueError
   \<and> (evs \<noteq> [] \<longrightarrow>
        (\<exists>d. SimulationData_init evs = Inr d
           \<and> sorted (map time_min (events d))
           \<and> set (events d) = set evs \<and> length (events d) = length evs
           \<and> start_time d = time_min (hd (events d))
           \<and> end_time d = time_min (last (events d))))"
  by (simp add: SimulationData_init_def Let_def sort_key_Nil_iff)

theorem SimulationData_init_spec_witness:
  "scenario_log \<noteq> []
   \<and> SimulationData_init scenario_log = Inr scenario_data
   \<and> start_time scenario_data = 0 \<and> end_time scenario_data = 15
   \<and> sorted (map time_min (events scenario_data))"
proof -
  have ne: "scenario_log \<noteq> []" by (simp add: scenario_log_def)
  from SimulationData_init_spec [of scenario_log] ne
  obtain d where d: "SimulationData_init scenario_log = Inr d"
    and srt: "sorted (map time_min (events d))"
    and st: "start_time d = time_min (hd (events d))"
    and en: "end_time d = time_min (last (events d))"
    by blast
  have dd: "d = scenario_data" using d scenario_data_ok by simp
  have ev: "events scenario_data = scenario_log" by (simp add: scenario_data_eq)
  have s0: "start_time scenario_data = 0"
    using st unfolding dd ev by (simp add: scenario_log_def mk_event_def)
  have e15: "end_time scenario_data = 15"
    using en unfolding dd ev by (simp add: scenario_log_def mk_event_def)
  show ?thesis using ne scenario_data_ok s0 e15 srt unfolding dd by blast
qed

section \<open>Transport events without a registry entry\<close>

text \<open>
  Claim C9.  A TRANSPORT\_END or TRANSPORT\_CANCEL event whose identity key has no entry
  in the transport registry changes nothing: the handler returns the engine as it was
  (it has no failing branch), and the registry after applying the event is the registry
  before.
\<close>

theorem transport_end_cancel_absent_noop:
  assumes "map_of (transports s) (transport_key e) = None"
    and "event e = ''TRANSPORT_END'' \<or> event e = ''TRANSPORT_CANCEL''"
  shows "handle_transport e s = s \<and> transports (apply_event e s) = transports s"
proof -
  have h: "handle_transport e s = s"
    using assms by (auto simp: handle_transport_def Let_def)
  show ?thesis using h by (simp add: transports_apply_event)
qed

theorem transport_end_cancel_absent_noop_witness:
  "handle_transport (mk_event 15 ''M2'' ''TRANSPORT_END'' ''P1'' None None) scenario_fresh
     = scenario_fresh
   \<and> transports (apply_event (mk_event 3 ''M2'' ''TRANSPORT_CANCEL'' ''P9'' None None)
        scenario_fresh) = []"
  using transport_end_cancel_absent_noop
      [of scenario_fresh "mk_event 15 ''M2'' ''TRANSPORT_END'' ''P1'' None None"]
    transport_end_cancel_absent_noop
      [of scenario_fresh "mk_event 3 ''M2'' ''TRANSPORT_CANCEL'' ''P9'' None None"]
  by (simp add: scenario_fresh_def SimulationController_init_def reset_def mk_event_def)

section \<open>The replay loop as a fold\<close>

lemma handle_transport_pointer_update:
  "handle_transport e (s\<lparr>pointer := q\<rparr>) = (handle_transport e s)\<lparr>pointer := q\<rparr>"
  by (simp add: handle_transport_def Let_def split: option.splits)

lemma handle_transport_machine_states_update:
  "handle_transport e (s\<lparr>machine_states := m\<rparr>) = (handle_transport e s)\<lparr>machine_states := m\<rparr>"
  by (simp add: handle_transport_def Let_def split: option.splits)

lemma apply_event_pointer_update:
  "apply_event e (s\<lparr>pointer := q\<rparr>) = (apply_event e s)\<lparr>pointer := q\<rparr>"
  by (simp add: apply_event_def Let_def handle_transport_pointer_update
      handle_transport_machine_states_update)

lemma fold_apply_event_pointer_update:
  "fold apply_event es (s\<lparr>pointer := q\<rparr>) = (fold apply_event es s)\<lparr>pointer := q\<rparr>"
  by (induction es arbitrary: s) (simp_all add: apply_event_pointer_update)

lemma data_fold_apply_event [simp]: "data (fold apply_event es s) = data s"
  by (induction es arbitrary: s) simp_all

lemma pointer_fold_apply_event [simp]: "pointer (fold apply_event es s) = pointer s"
  by (induction es arbitrary: s) simp_all

lemma current_time_fold_apply_event [simp]:
  "current_time (fold apply_event es s) = current_time s"
  by (induction es arbitrary: s) simp_all

lemma active_transports_fold_apply_event [simp]:
  "active_transports (fold apply_event es s) = active_transports s"
  by (induction es arbitrary: s) simp_all

lemma advance_loop_fold:
  "advance_loop target s =
     (fold apply_event (due target s) s)\<lparr>pointer := pointer s + length (due target s)\<rparr>"
proof (induction target s rule: advance_loop.induct)
  case (1 target s)
  let ?evs = "events (data s)"
  let ?p = "pointer s"
  show ?case
  proof (cases "?p < length ?evs \<and> time_min (?evs ! ?p) \<le> target")
    case True
    let ?s' = "(apply_event (?evs ! ?p) s)\<lparr>pointer := ?p + 1\<rparr>"
    have d: "drop ?p ?evs = ?evs ! ?p # drop (?p + 1) ?evs"
      using True by (simp add: Cons_nth_drop_Suc)
    have due: "due target s = ?evs ! ?p # due target ?s'"
      using True by (simp add: due_def d)
    have "advance_loop target s = advance_loop target ?s'"
      using True by (subst advance_loop.simps) simp
    also have "\<dots> = (fold apply_event (due target ?s') ?s')
                      \<lparr>pointer := pointer ?s' + length (due target ?s')\<rparr>"
      using "1.IH" True by simp
    also have "\<dots> = (fold apply_event (due target s) s)
                      \<lparr>pointer := ?p + length (due target s)\<rparr>"
      by (simp add: due fold_apply_event_pointer_update)
    finally show ?thesis .
  next
    case False
    then have "due target s = []"
      by (cases "?p < length ?evs") (auto simp: due_def Cons_nth_drop_Suc [symmetric])
    moreover have "advance_loop target s = s"
      using False by (subst advance_loop.simps) auto
    ultimately show ?thesis by simp
  qed
qed

lemma advance_loop_trace_eq:
  "advance_loop_trace target s applied =
     (advance_loop target s, applied @ [pointer s ..< pointer (advance_loop target s)])"
proof (induction target s applied rule: advance_loop_trace.induct)
  case (1 target s applied)
  let ?evs = "events (data s)"
  let ?p = "pointer s"
  show ?case
  proof (cases "?p < length ?evs \<and> time_min (?evs ! ?p) \<le> target")
    case True
    let ?s' = "(apply_event (?evs ! ?p) s)\<lparr>pointer := ?p + 1\<rparr>"
    have l: "advance_loop target s = advance_loop target ?s'"
      using True by (subst advance_loop.simps) simp
    have ge: "?p + 1 \<le> pointer (advance_loop target ?s')"
      by (simp add: advance_loop_fold)
    have "advance_loop_trace target s applied
            = advance_loop_trace target ?s' (applied @ [?p])"
      using True by (subst advance_loop_trace.simps) simp
    also have "\<dots> = (advance_loop target ?s',
                      (applied @ [?p]) @ [?p + 1 ..< pointer (advance_loop target ?s')])"
      using "1.IH" True by simp
    also have "\<dots> = (advance_loop target s,
                      applied @ [?p ..< pointer (advance_loop target s)])"
      using ge by (simp add: l upt_conv_Cons)
    finally show ?thesis .
  next
    case False
    have "advance_loop target s = s"
      using False by (subst advance_loop.simps) auto
    moreover have "advance_loop_trace target s applied = (s, applied)"
      using False by (subst advance_loop_trace.simps) auto
    ultimately show ?thesis by simp
  qed
qed

section \<open>Fields after one call\<close>

lemma machine_states_refresh [simp]:
  "machine_states (refresh_active_transports s) = machine_states s"
  by (simp add: refresh_active_transports_def split: prod.splits)

lemma pointer_refresh [simp]: "pointer (refresh_active_transports s) = pointer s"
  by (simp add: refresh_active_transports_def split: prod.splits)

lemma data_refresh [simp]: "data (refresh_active_transports s) = data s"
  by (simp add: refresh_active_transports_def split: prod.splits)

lemma current_time_refresh [simp]:
  "current_time (refresh_active_transports s) = current_time s"
  by (simp add: refresh_active_transports_def split: prod.splits)

lemma advance_to_before_refresh:
  "advance_to t s = refresh_active_transports (before_refresh t s)"
  by (simp add: advance_to_def before_refresh_def clamp_time_def Let_def)

lemma data_advance_loop [simp]: "data (advance_loop c s) = data s"
  by (simp add: advance_loop_fold)

lemma data_before_refresh [simp]: "data (before_refresh t s) = data s"
  by (simp add: before_refresh_def)

lemma data_advance_to [simp]: "data (advance_to t s) = data s"
  by (simp add: advance_to_before_refresh)

lemma pointer_advance_to:
  "pointer (advance_to t s) = pointer s + length (due (clamp_time (data s) t) s)"
  by (simp add: advance_to_before_refresh before_refresh_def advance_loop_fold)

lemma current_time_advance_to [simp]:
  "current_time (advance_to t s) = clamp_time (data s) t"
  by (simp add: advance_to_before_refresh before_refresh_def)

lemma machine_states_advance_to:
  "machine_states (advance_to t s) =
     machine_states (fold apply_event (due (clamp_time (data s) t) s) s)"
  by (simp add: advance_to_before_refresh before_refresh_def advance_loop_fold)

lemma applied_by_advance_to_eq:
  "applied_by_advance_to t s = [pointer s ..< pointer (advance_to t s)]"
  by (simp add: applied_by_advance_to_def advance_loop_trace_eq advance_to_before_refresh
      before_refresh_def)

lemma pointer_advance_to_ge: "pointer s \<le> pointer (advance_to t s)"
  by (simp add: pointer_advance_to)

lemma run_ops_Cons [simp]: "run_ops (c # cs) s = run_ops cs (run_op c s)"
  by (simp add: run_ops_def)

lemma run_ops_Nil [simp]: "run_ops [] s = s"
  by (simp add: run_ops_def)

lemma pointer_advance_to_seq_ge:
  "pointer s \<le> pointer (run_ops (map AdvanceTo ts) s)"
proof (induction ts arbitrary: s)
  case Nil
  show ?case by simp
next
  case (Cons t ts)
  have "pointer s \<le> pointer (advance_to t s)" by (rule pointer_advance_to_ge)
  also have "\<dots> \<le> pointer (run_ops (map AdvanceTo ts) (advance_to t s))" by (rule Cons.IH)
  finally show ?case by simp
qed

lemma pointers_after_advance_to_sorted:
  "sorted (pointer s # pointers_after (map AdvanceTo ts) s)"
proof (induction ts arbitrary: s)
  case Nil
  show ?case by simp
next
  case (Cons t ts)
  have "sorted (pointer (advance_to t s) # pointers_after (map AdvanceTo ts) (advance_to t s))"
    by (rule Cons.IH)
  moreover have "pointer s \<le> pointer (advance_to t s)" by (rule pointer_advance_to_ge)
  ultimately show ?case by auto
qed

lemma applied_by_advance_to_seq:
  "applied_by_ops (map AdvanceTo ts) s = [pointer s ..< pointer (run_ops (map AdvanceTo ts) s)]"
proof (induction ts arbitrary: s)
  case Nil
  show ?case by simp
next
  case (Cons t ts)
  let ?s1 = "advance_to t s"
  have a: "pointer s \<le> pointer ?s1" by (rule pointer_advance_to_ge)
  have b: "pointer ?s1 \<le> pointer (run_ops (map AdvanceTo ts) ?s1)"
    by (rule pointer_advance_to_seq_ge)
  have "applied_by_ops (map AdvanceTo (t # ts)) s
          = [pointer s ..< pointer ?s1] @ [pointer ?s1 ..< pointer (run_ops (map AdvanceTo ts) ?s1)]"
    by (simp add: applied_by_advance_to_eq Cons.IH)
  also have "\<dots> = [pointer s ..< pointer (run_ops (map AdvanceTo ts) ?s1)]"
    using a b by (metis le_Suc_ex upt_add_eq_append)
  finally show ?case by simp
qed

section \<open>The forward-only pointer\<close>

text \<open>
  Claim C7.  A call of \<open>advance_to\<close> never decreases the pointer: its loop applies the
  events at the consecutive indices from the old pointer up to the new one, in this order.
  Across a sequence of calls of \<open>advance_to\<close> with non-decreasing targets the pointer
  after each call is at least the pointer before it, and the indices of the events applied
  by the whole sequence are the consecutive indices from the first pointer to the last, so
  no event is applied twice.  (The ghost loop \<open>advance_loop_trace\<close> returns the same
  state as \<open>advance_loop\<close>, by \<open>advance_loop_trace_eq\<close>.)
\<close>

theorem pointer_monotone:
  assumes "sorted ts"
  shows "pointer s \<le> pointer (advance_to t s)
       \<and> applied_by_advance_to t s = [pointer s ..< pointer (advance_to t s)]
       \<and> sorted (pointer s # pointers_after (map AdvanceTo ts) s)
       \<and> applied_by_ops (map AdvanceTo ts) s
           = [pointer s ..< pointer (run_ops (map AdvanceTo ts) s)]
       \<and> distinct (applied_by_ops (map AdvanceTo ts) s)"
  by (simp add: pointer_advance_to_ge applied_by_advance_to_eq
      pointers_after_advance_to_sorted applied_by_advance_to_seq
      del: sorted_wrt.simps)

theorem pointer_monotone_witness:
  "sorted [7, 15, 20 :: real]
   \<and> pointers_after (map AdvanceTo [7, 15, 20]) scenario_fresh = [2, 4, 4]
   \<and> applied_by_ops (map AdvanceTo [7, 15, 20]) scenario_fresh = [0, 1, 2, 3]
   \<and> applied_by_advance_to 7 scenario_fresh = [0, 1]"
  using pointer_monotone [of "[7, 15, 20]" scenario_fresh 7]
  by code_simp

section \<open>The queue never goes below zero\<close>

lemma set_update_subset: "set (AList.update k v al) \<subseteq> insert (k, v) (set al)"
  by (induction al) auto

lemma keys_update: "fst ` set (AList.update k v al) = insert k (fst ` set al)"
  by (induction al) auto

lemma machine_states_apply_event:
  "machine_states (apply_event e s) =
     AList.update (machine e) (the (map_of (machine_states (apply_event e s)) (machine e)))
       (machine_states s)"
  by (simp add: apply_event_def Let_def update_conv')

lemma queue_apply_event_nonneg:
  assumes "\<And>st. map_of (machine_states s) (machine e) = Some st \<Longrightarrow> 0 \<le> queue st"
  shows "0 \<le> queue (the (map_of (machine_states (apply_event e s)) (machine e)))"
  using assms
  by (cases "queue_length e"; cases "map_of (machine_states s) (machine e)")
     (simp_all add: apply_event_def Let_def update_conv' MachineState_init_def)

lemma queue_ok_apply_event: "queue_ok s \<Longrightarrow> queue_ok (apply_event e s)"
proof -
  assume ok: "queue_ok s"
  have "\<And>st. map_of (machine_states s) (machine e) = Some st \<Longrightarrow> 0 \<le> queue st"
    using ok by (force simp: queue_ok_def iter_states_def dest: map_of_SomeD)
  then have q: "0 \<le> queue (the (map_of (machine_states (apply_event e s)) (machine e)))"
    by (rule queue_apply_event_nonneg)
  show ?thesis
    unfolding queue_ok_def iter_states_def
    using ok q set_update_subset [of "machine e"
        "the (map_of (machine_states (apply_event e s)) (machine e))" "machine_states s"]
    by (subst machine_states_apply_event) (auto simp: queue_ok_def iter_states_def)
qed

lemma queue_ok_fold: "queue_ok s \<Longrightarrow> queue_ok (fold apply_event es s)"
  by (induction es arbitrary: s) (simp_all add: queue_ok_apply_event)

lemma queue_ok_cong: "machine_states s = machine_states s' \<Longrightarrow> queue_ok s = queue_ok s'"
  by (simp add: queue_ok_def iter_states_def)

lemma queue_ok_advance_to: "queue_ok s \<Longrightarrow> queue_ok (advance_to t s)"
  using queue_ok_fold [of s "due (clamp_time (data s) t) s"]
    queue_ok_cong [OF machine_states_advance_to [of t s]] by simp

lemma queue_ok_reset: "queue_ok (reset s)"
  by (auto simp: queue_ok_def iter_states_def reset_def MachineState_init_def)

lemma queue_ok_run_op: "queue_ok s \<Longrightarrow> queue_ok (run_op c s)"
  by (cases c) (simp_all add: queue_ok_reset queue_ok_advance_to seek_def advance_def)

lemma queue_ok_run_ops: "queue_ok s \<Longrightarrow> queue_ok (run_ops cs s)"
  by (induction cs arbitrary: s) (simp_all add: queue_ok_run_op)

lemma queue_ok_init: "queue_ok (SimulationController_init d)"
  by (simp add: SimulationController_init_def queue_ok_reset)

text \<open>
  Claim C6.  In every state reached from a freshly constructed engine by any sequence of
  \<open>reset\<close>, \<open>advance\<close>, \<open>advance_to\<close> and \<open>seek\<close> calls, over any event log
  (negative queue lengths included), every machine state has a queue of at least 0.
\<close>

theorem queue_floor:
  assumes "SimulationData_init evs = Inr d"
  shows "\<forall>st \<in> set (iter_states (run_ops cs (SimulationController_init d))). 0 \<le> queue st"
  using queue_ok_run_ops [OF queue_ok_init, of cs d] by (simp add: queue_ok_def)

lemma queue_data_ok: "SimulationData_init queue_log = Inr queue_data"
  by (simp add: queue_data_def queue_log_def mk_event_def SimulationData_init_def)

theorem queue_floor_witness:
  "SimulationData_init queue_log = Inr queue_data
   \<and> list_all (\<lambda>st. 0 \<le> queue st)
         (iter_states (run_ops [Seek 2, Advance (- 1), Reset, AdvanceTo 1]
            (SimulationController_init queue_data)))
   \<and> map queue (iter_states (run_ops [Seek 2] (SimulationController_init queue_data))) = [1]"
proof -
  have v: "map queue (iter_states (run_ops [Seek 2] (SimulationController_init queue_data)))
             = [1]"
    by code_simp
  from queue_data_ok 
    queue_floor [OF queue_data_ok, of "[Seek 2, Advance (- 1), Reset, AdvanceTo 1]"] v
  show ?thesis by (simp add: list_all_iff)
qed

section \<open>The machine state keyed by the empty name\<close>

lemma empty_not_in_machines:
  "SimulationData_init evs = Inr d \<Longrightarrow> [] \<notin> set (machines d)"
  by (auto simp: SimulationData_init_def Let_def split: if_splits)

lemma keys_apply_event:
  "fst ` set (machine_states (apply_event e s)) = insert (machine e) (fst ` set (machine_states s))"
  by (subst machine_states_apply_event) (simp add: keys_update)

lemma keys_fold_apply_event:
  "fst ` set (machine_states (fold apply_event es s))
     = machine ` set es \<union> fst ` set (machine_states s)"
  by (induction es arbitrary: s) (auto simp: keys_apply_event)

lemma nth_in_due:
  assumes "pointer s \<le> i" and "i < pointer s + length (due c s)"
  shows "events (data s) ! i \<in> set (due c s)"
proof -
  let ?xs = "drop (pointer s) (events (data s))"
  let ?n = "length (due c s)"
  have d: "due c s = take ?n ?xs"
    unfolding due_def by (rule takeWhile_eq_take)
  have le: "?n \<le> length ?xs"
    unfolding due_def by (rule length_takeWhile_le)
  have "i - pointer s < ?n" using assms by arith
  then have "take ?n ?xs ! (i - pointer s) \<in> set (take ?n ?xs)"
    using le by (intro nth_mem) simp
  moreover have "take ?n ?xs ! (i - pointer s) = events (data s) ! i"
    using assms le by simp
  ultimately show ?thesis using d by simp
qed

text \<open>
  Claim C10.  The machine names of the log container exclude the empty string, so no
  machine state is keyed by the empty string after \<open>reset\<close> (nor in a fresh engine).
  Applying an event whose machine is the empty string creates, or updates, the machine
  state keyed by the empty string, and after a call of \<open>advance_to\<close> that replays such an
  event that state is among the machine states of the engine.
\<close>

theorem empty_machine_lazily_created:
  assumes "SimulationData_init evs = Inr d"
  shows "(\<forall>s. data s = d \<longrightarrow> map_of (machine_states (reset s)) [] = None)
       \<and> map_of (machine_states (SimulationController_init d)) [] = None
       \<and> (\<forall>e s. machine e = [] \<longrightarrow>
            (\<exists>st. map_of (machine_states (apply_event e s)) [] = Some st
                 \<and> last_event st = Some (event e)
                 \<and> (map_of (machine_states s) [] = None \<longrightarrow> ms_machine st = [])))
       \<and> (\<forall>s t i. data s = d \<and> pointer s \<le> i \<and> i < pointer (advance_to t s)
              \<and> machine (events d ! i) = [] \<longrightarrow>
            (\<exists>st \<in> set (iter_states (advance_to t s)).
               map_of (machine_states (advance_to t s)) [] = Some st))"
proof -
  have a: "[] \<notin> set (machines d)" using assms by (rule empty_not_in_machines)
  have r: "map_of (machine_states (reset s)) [] = None" if "data s = d" for s
    using a that by (simp add: reset_def map_of_eq_None_iff image_image)
  have i: "map_of (machine_states (SimulationController_init d)) [] = None"
    unfolding SimulationController_init_def by (rule r) simp
  have e: "\<exists>st. map_of (machine_states (apply_event e s)) [] = Some st
                 \<and> last_event st = Some (event e)
                 \<and> (map_of (machine_states s) [] = None \<longrightarrow> ms_machine st = [])"
    if "machine e = []" for e s
    using that
    by (cases "queue_length e"; cases "map_of (machine_states s) []")
       (simp_all add: apply_event_def Let_def update_conv' MachineState_init_def)
  have l: "\<exists>st \<in> set (iter_states (advance_to t s)).
             map_of (machine_states (advance_to t s)) [] = Some st"
    if "data s = d" "pointer s \<le> i" "i < pointer (advance_to t s)"
       "machine (events d ! i) = []" for s t i
  proof -
    have "events (data s) ! i \<in> set (due (clamp_time (data s) t) s)"
      using that by (intro nth_in_due) (simp_all add: pointer_advance_to)
    then have "[] \<in> machine ` set (due (clamp_time (data s) t) s)"
      using that by (metis imageI)
    then have "[] \<in> fst ` set (machine_states (advance_to t s))"
      by (simp add: machine_states_advance_to keys_fold_apply_event)
    then obtain st where "map_of (machine_states (advance_to t s)) [] = Some st"
      by (metis map_of_eq_None_iff not_None_eq)
    then show ?thesis
      by (force simp: iter_states_def dest: map_of_SomeD)
  qed
  show ?thesis using r i e l by blast
qed

theorem empty_machine_lazily_created_witness:
  "SimulationData_init queue_log = Inr queue_data
   \<and> map_of (machine_states (SimulationController_init queue_data)) [] = None
   \<and> map ms_machine (iter_states (advance_to 3 (SimulationController_init queue_data)))
       = [''M1'', []]
   \<and> (\<exists>st \<in> set (iter_states (advance_to 3 (SimulationController_init queue_data))).
         map_of (machine_states (advance_to 3 (SimulationController_init queue_data))) []
           = Some st)
   \<and> (\<exists>st. map_of (machine_states
           (apply_event (mk_event 3 [] ''TRANSPORT_START'' ''P1'' (Some ''M1'') None)
              (SimulationController_init queue_data))) [] = Some st
         \<and> ms_machine st = [])
   \<and> map_of (machine_states (reset (advance_to 3 (SimulationController_init queue_data)))) []
       = None"
proof -
  let ?s = "SimulationController_init queue_data"
  have v: "map ms_machine (iter_states (advance_to 3 ?s)) = [''M1'', []]"
    by code_simp
  have p: "data ?s = queue_data \<and> pointer ?s \<le> 3 \<and> 3 < pointer (advance_to 3 ?s)
             \<and> machine (events queue_data ! 3) = []"
    by code_simp
  have m: "machine (mk_event 3 [] ''TRANSPORT_START'' ''P1'' (Some ''M1'') None) = []"
    by (simp add: mk_event_def)
  have r: "data (advance_to 3 ?s) = queue_data"
    by (simp add: SimulationController_init_def reset_def)
  note th = empty_machine_lazily_created [OF queue_data_ok]
  have c1: "map_of (machine_states ?s) [] = None" using th by blast
  have c2: "\<exists>st \<in> set (iter_states (advance_to 3 ?s)).
              map_of (machine_states (advance_to 3 ?s)) [] = Some st"
    using th p by blast
  have c3: "\<exists>st. map_of (machine_states
           (apply_event (mk_event 3 [] ''TRANSPORT_START'' ''P1'' (Some ''M1'') None) ?s)) []
             = Some st \<and> ms_machine st = []"
    using th m c1 by blast
  have c4: "map_of (machine_states (reset (advance_to 3 ?s))) [] = None"
    using th r by blast
  show ?thesis using queue_data_ok c1 v c2 c3 c4 by blast
qed

section \<open>The snapshot refresh on a registry with distinct keys\<close>

lemma update_fresh_key: "k \<notin> fst ` set al \<Longrightarrow> AList.update k v al = al @ [(k, v)]"
  by (induction al) auto

lemma fold_delete_filter:
  "fold AList.delete ks al = filter (\<lambda>kt. fst kt \<notin> set ks) al"
proof (induction ks arbitrary: al)
  case Nil
  show ?case by simp
next
  case (Cons k ks)
  have "AList.delete k al = filter (\<lambda>kt. fst kt \<noteq> k) al"
    by (induction al) auto
  then show ?case by (simp add: Cons.IH conj_commute)
qed

lemma refresh_loop_distinct:
  assumes "distinct (map fst items)"
    and "fst ` set active \<inter> fst ` set items = {}"
  shows "refresh_loop now items active to_remove =
           (active @ map (\<lambda>kt. (fst kt, clone_transport (snd kt))) (kept now items),
            to_remove @ map fst (filter (\<lambda>kt. expired now (snd kt)) items))"
  using assms
proof (induction items arbitrary: active to_remove)
  case Nil
  show ?case by (simp add: kept_def)
next
  case (Cons kt items)
  obtain k t where kt: "kt = (k, t)" by (cases kt)
  show ?case
  proof (cases "expired now t")
    case True
    then show ?thesis
      using Cons.prems Cons.IH [of active "to_remove @ [k]"] by (simp add: kt kept_def)
  next
    case False
    have fresh: "k \<notin> fst ` set active" using Cons.prems by (auto simp: kt)
    have disj: "fst ` set (active @ [(k, clone_transport t)]) \<inter> fst ` set items = {}"
      using Cons.prems by (auto simp: kt)
    show ?thesis
      using False Cons.prems Cons.IH [OF _ disj, of to_remove]
      by (simp add: kt kept_def update_fresh_key [OF fresh])
  qed
qed

lemma expired_key_iff:
  assumes "distinct (map fst items)" and "kt \<in> set items"
  shows "fst kt \<in> fst ` set (filter (\<lambda>x. expired now (snd x)) items) \<longleftrightarrow> expired now (snd kt)"
proof
  assume "fst kt \<in> fst ` set (filter (\<lambda>x. expired now (snd x)) items)"
  then obtain x where x: "x \<in> set items" "expired now (snd x)" "fst x = fst kt" by auto
  then have "x = kt" using assms by (metis eq_key_imp_eq_value prod.collapse)
  then show "expired now (snd kt)" using x by simp
next
  assume "expired now (snd kt)"
  then show "fst kt \<in> fst ` set (filter (\<lambda>x. expired now (snd x)) items)"
    using assms by (auto intro!: image_eqI [where x = kt])
qed

lemma refresh_distinct:
  assumes "reg_ok s"
  shows "refresh_active_transports s =
           s\<lparr>active_transports :=
                map (\<lambda>kt. (fst kt, clone_transport (snd kt)))
                  (kept (current_time s) (transports s)),
              transports := kept (current_time s) (transports s)\<rparr>"
proof -
  let ?now = "current_time s"
  let ?items = "transports s"
  have d: "distinct (map fst ?items)" using assms by (simp add: reg_ok_def)
  have l: "refresh_loop ?now ?items [] [] =
             (map (\<lambda>kt. (fst kt, clone_transport (snd kt))) (kept ?now ?items),
              map fst (filter (\<lambda>kt. expired ?now (snd kt)) ?items))"
    using refresh_loop_distinct [OF d, of "[]" ?now "[]"] by simp
  have f: "fold AList.delete (map fst (filter (\<lambda>x. expired ?now (snd x)) ?items)) ?items
             = kept ?now ?items"
    unfolding kept_def fold_delete_filter
    by (rule filter_cong [OF refl]) (use expired_key_iff [OF d] in auto)
  show ?thesis
    by (simp add: refresh_active_transports_def l f)
qed

section \<open>Keys of the transport registry\<close>

lemma keys_delete: "fst ` set (AList.delete k al) = fst ` set al - {k}"
  by (induction al) auto

lemma reg_ok_handle_transport: "reg_ok s \<Longrightarrow> reg_ok (handle_transport e s)"
  by (simp add: reg_ok_def handle_transport_def Let_def distinct_update distinct_delete
      split: option.splits)

lemma reg_ok_apply_event: "reg_ok s \<Longrightarrow> reg_ok (apply_event e s)"
  using reg_ok_handle_transport [of s e]
  by (simp add: reg_ok_def transports_apply_event)

lemma reg_ok_fold: "reg_ok s \<Longrightarrow> reg_ok (fold apply_event es s)"
  by (induction es arbitrary: s) (simp_all add: reg_ok_apply_event)

lemma reg_ok_cong: "transports s = transports s' \<Longrightarrow> reg_ok s = reg_ok s'"
  by (simp add: reg_ok_def)

lemma transports_before_refresh:
  "transports (before_refresh t s) =
     transports (fold apply_event (due (clamp_time (data s) t) s) s)"
  by (simp add: before_refresh_def advance_loop_fold)

lemma current_time_before_refresh [simp]:
  "current_time (before_refresh t s) = clamp_time (data s) t"
  by (simp add: before_refresh_def)

lemma reg_ok_before_refresh: "reg_ok s \<Longrightarrow> reg_ok (before_refresh t s)"
  using reg_ok_fold [of s "due (clamp_time (data s) t) s"]
    reg_ok_cong [OF transports_before_refresh [of t s]] by simp

lemma reg_ok_refresh: "reg_ok s \<Longrightarrow> reg_ok (refresh_active_transports s)"
  by (simp add: refresh_distinct) (simp add: reg_ok_def kept_def distinct_map_filter)

lemma reg_ok_advance_to: "reg_ok s \<Longrightarrow> reg_ok (advance_to t s)"
  by (simp add: advance_to_before_refresh reg_ok_refresh reg_ok_before_refresh)

lemma reg_ok_reset: "reg_ok (reset s)"
  by (simp add: reg_ok_def reset_def)

lemma reg_ok_run_op: "reg_ok s \<Longrightarrow> reg_ok (run_op c s)"
  by (cases c) (simp_all add: reg_ok_reset reg_ok_advance_to seek_def advance_def)

lemma reg_ok_run_ops: "reg_ok s \<Longrightarrow> reg_ok (run_ops cs s)"
  by (induction cs arbitrary: s) (simp_all add: reg_ok_run_op)

lemma reg_ok_init: "reg_ok (SimulationController_init d)"
  by (simp add: SimulationController_init_def reg_ok_reset)

lemma absent_handle_transport:
  assumes "k \<notin> tkeys s" and "\<not> is_start_for k e"
  shows "k \<notin> tkeys (handle_transport e s)"
proof -
  have p: "transport_key e \<noteq> k" if "map_of (transports s) (transport_key e) \<noteq> None"
    using that assms(1) by (auto simp: tkeys_def map_of_eq_None_iff)
  show ?thesis
    using assms p
    by (auto simp: tkeys_def handle_transport_def Let_def keys_update keys_delete
        is_start_for_def split: option.splits)
qed

lemma absent_apply_event:
  "k \<notin> tkeys s \<Longrightarrow> \<not> is_start_for k e \<Longrightarrow> k \<notin> tkeys (apply_event e s)"
  using absent_handle_transport [of k s e]
  by (simp add: tkeys_def transports_apply_event)

lemma absent_fold:
  "k \<notin> tkeys s \<Longrightarrow> \<forall>e \<in> set es. \<not> is_start_for k e \<Longrightarrow>
   k \<notin> tkeys (fold apply_event es s)"
  by (induction es arbitrary: s) (simp_all add: absent_apply_event)

lemma due_eq_map_nth:
  "due c s = map ((!) (events (data s))) [pointer s ..< pointer s + length (due c s)]"
proof -
  let ?xs = "drop (pointer s) (events (data s))"
  let ?n = "length (due c s)"
  have d: "due c s = take ?n ?xs"
    unfolding due_def by (rule takeWhile_eq_take)
  have le: "?n \<le> length ?xs"
    unfolding due_def by (rule length_takeWhile_le)
  have "take ?n ?xs = map ((!) (events (data s))) [pointer s ..< pointer s + ?n]"
    using le by (intro nth_equalityI) (simp_all add: add.commute)
  then show ?thesis using d by simp
qed

lemma absent_advance_to:
  assumes "k \<notin> tkeys s" and "reg_ok s"
    and "\<forall>i \<in> set (applied_by_advance_to t s). \<not> is_start_for k (events (data s) ! i)"
  shows "k \<notin> tkeys (advance_to t s) \<and> k \<notin> fst ` set (active_transports (advance_to t s))"
proof -
  let ?c = "clamp_time (data s) t"
  have "\<forall>e \<in> set (due ?c s). \<not> is_start_for k e"
    using assms(3)
    by (subst due_eq_map_nth) (auto simp: applied_by_advance_to_eq pointer_advance_to)
  then have "k \<notin> tkeys (fold apply_event (due ?c s) s)"
    using assms(1) by (intro absent_fold)
  then have b: "k \<notin> tkeys (before_refresh t s)"
    by (simp add: tkeys_def transports_before_refresh)
  have ok: "reg_ok (before_refresh t s)" using assms(2) by (rule reg_ok_before_refresh)
  have sub: "set (kept ?c (transports (before_refresh t s))) \<subseteq> set (transports (before_refresh t s))"
    by (simp add: kept_def)
  have "k \<notin> fst ` set (kept ?c (transports (before_refresh t s)))"
    using b sub by (auto simp: tkeys_def)
  then show ?thesis
    by (simp add: advance_to_before_refresh refresh_distinct [OF ok] tkeys_def image_image)
qed

lemma absent_reset: "k \<notin> tkeys (reset s) \<and> k \<notin> fst ` set (active_transports (reset s))"
  by (simp add: tkeys_def reset_def)

lemma data_reset [simp]: "data (reset s) = data s"
  by (simp add: reset_def)

lemma data_run_op [simp]: "data (run_op c s) = data s"
  by (cases c) (simp_all add: seek_def advance_def)

lemma data_run_ops [simp]: "data (run_ops cs s) = data s"
  by (induction cs arbitrary: s) simp_all

lemma absent_run_op:
  assumes "k \<notin> tkeys s" and "reg_ok s"
    and "\<forall>i \<in> set (applied_by_op c s). \<not> is_start_for k (events (data s) ! i)"
  shows "k \<notin> tkeys (run_op c s) \<and> k \<notin> fst ` set (active_transports (run_op c s))"
proof (cases c)
  case Reset
  then show ?thesis using absent_reset [of k s] by simp
next
  case (Advance delta)
  then show ?thesis using assms absent_advance_to [of k s "current_time s + delta"]
    by (simp add: advance_def)
next
  case (AdvanceTo t)
  then show ?thesis using assms absent_advance_to [of k s t] by simp
next
  case (Seek t)
  show ?thesis
  proof (cases "t < current_time s")
    case True
    then show ?thesis
      using assms Seek absent_advance_to [of k "reset s" t] absent_reset [of k s]
        reg_ok_reset [of s]
      by (simp add: seek_def)
  next
    case False
    then show ?thesis
      using assms Seek absent_advance_to [of k s t] by (simp add: seek_def)
  qed
qed

lemma absent_run_ops:
  assumes "k \<notin> tkeys s" and "k \<notin> fst ` set (active_transports s)" and "reg_ok s"
    and "\<forall>i \<in> set (applied_by_ops cs s). \<not> is_start_for k (events (data s) ! i)"
    and "n \<le> length cs"
  shows "k \<notin> tkeys (run_ops (take n cs) s)
       \<and> k \<notin> fst ` set (active_transports (run_ops (take n cs) s))"
  using assms
proof (induction cs arbitrary: s n)
  case Nil
  then show ?case by simp
next
  case (Cons c cs)
  show ?case
  proof (cases n)
    case 0
    then show ?thesis using Cons.prems by simp
  next
    case (Suc m)
    have a: "k \<notin> tkeys (run_op c s) \<and> k \<notin> fst ` set (active_transports (run_op c s))"
      using Cons.prems by (intro absent_run_op) simp_all
    have "k \<notin> tkeys (run_ops (take m cs) (run_op c s))
        \<and> k \<notin> fst ` set (active_transports (run_ops (take m cs) (run_op c s)))"
      using a Cons.prems Suc
      by (intro Cons.IH) (simp_all add: reg_ok_run_op)
    then show ?thesis using Suc by simp
  qed
qed

lemma eviction_data_ok: "SimulationData_init eviction_log = Inr eviction_data"
  by (simp add: eviction_data_def eviction_log_def mk_event_def SimulationData_init_def)

section \<open>Eviction\<close>

lemma map_of_kept_expired:
  assumes "distinct (map fst al)" and "map_of al k = Some t" and "expired now t"
  shows "map_of (kept now al) k = None"
proof -
  have "k \<notin> fst ` set (kept now al)"
  proof
    assume "k \<in> fst ` set (kept now al)"
    then obtain t' where t': "(k, t') \<in> set al" "\<not> expired now t'"
      by (auto simp: kept_def)
    have "(k, t) \<in> set al" using assms(2) by (rule map_of_SomeD)
    then have "t' = t" using t'(1) assms(1) by (metis eq_key_imp_eq_value)
    then show False using t'(2) assms(3) by simp
  qed
  then show ?thesis by (simp add: map_of_eq_None_iff)
qed

text \<open>
  The test is made on doubles: with an end time of 1 the sum is the double 1.1, so at a
  current time of that very double the entry is kept, and at the next double it is evicted.
\<close>

lemma expired_at_threshold:
  "\<not> expired (2476979795053773 / 2 ^ 51)
       \<lparr>tr_product_id = ''P1'', tr_entity_id = [], tr_from_machine = Some ''M1'',
        tr_to_machine = Some ''M2'', tr_start_time = 0, tr_end_time = Some 1\<rparr>
   \<and> expired (4953959590107547 / 2 ^ 52)
       \<lparr>tr_product_id = ''P1'', tr_entity_id = [], tr_from_machine = Some ''M1'',
        tr_to_machine = Some ''M2'', tr_start_time = 0, tr_end_time = Some 1\<rparr>"
  by code_simp

text \<open>
  Claim C3, as amended.  Take any state reached from a fresh engine by a sequence of
  calls, and a call of \<open>advance_to\<close> from it (\<open>seek\<close> and \<open>advance\<close> are such calls, after a
  possible \<open>reset\<close>).  If, when that call refreshes the snapshot, the registry holds under
  key \<open>k\<close> a transport with an end time \<open>e\<close>, and the double sum of \<open>e\<close> and 0.1 is less
  than the current time, then after the call \<open>k\<close> is in neither the registry nor the
  snapshot, and it stays out of both after every further call as long as none of these
  calls applies a TRANSPORT\_START event with key \<open>k\<close>.  A \<open>reset\<close> followed by a replay,
  and so a backward \<open>seek\<close>, applies the events of the log again from its start, the
  TRANSPORT\_START events before the eviction included: the absence is not permanent
  across them.
\<close>

theorem eviction_permanent:
  assumes "SimulationData_init evs = Inr d"
    and "s0 = run_ops cs0 (SimulationController_init d)"
    and "map_of (transports (before_refresh target s0)) k = Some t"
    and "tr_end_time t = Some e"
    and "float_add e grace < current_time (before_refresh target s0)"
    and "\<forall>i \<in> set (applied_by_ops cs (advance_to target s0)). \<not> is_start_for k (events d ! i)"
    and "n \<le> length cs"
  shows "map_of (transports (advance_to target s0)) k = None
       \<and> map_of (active_transports (advance_to target s0)) k = None
       \<and> map_of (transports (run_ops (take n cs) (advance_to target s0))) k = None
       \<and> map_of (active_transports (run_ops (take n cs) (advance_to target s0))) k = None"
proof -
  let ?b = "before_refresh target s0"
  let ?s1 = "advance_to target s0"
  have ok0: "reg_ok s0" using assms(2) by (simp add: reg_ok_run_ops reg_ok_init)
  have okb: "reg_ok ?b" using ok0 by (rule reg_ok_before_refresh)
  have ok1: "reg_ok ?s1" using ok0 by (rule reg_ok_advance_to)
  have d: "data ?s1 = d" using assms(2) by (simp add: SimulationController_init_def)
  have ex: "expired (current_time ?b) t"
    using assms(4,5) by (simp add: expired_def)
  have kn: "map_of (kept (current_time ?b) (transports ?b)) k = None"
    using okb assms(3) ex unfolding reg_ok_def by (rule map_of_kept_expired)
  have t1: "map_of (transports ?s1) k = None"
    using kn by (simp add: advance_to_before_refresh refresh_distinct [OF okb])
  have a1: "map_of (active_transports ?s1) k = None"
    using kn
    by (simp add: advance_to_before_refresh refresh_distinct [OF okb] map_of_eq_None_iff
        image_image)
  have "k \<notin> tkeys (run_ops (take n cs) ?s1)
      \<and> k \<notin> fst ` set (active_transports (run_ops (take n cs) ?s1))"
    using t1 a1 ok1 assms(6,7) d
    by (intro absent_run_ops) (simp_all add: tkeys_def map_of_eq_None_iff)
  then show ?thesis
    using t1 a1 by (simp add: tkeys_def map_of_eq_None_iff)
qed

theorem eviction_permanent_witness:
  "SimulationData_init eviction_log = Inr eviction_data
   \<and> map_option tr_end_time (map_of (transports (before_refresh 5 eviction_fresh)) (''P1'', ''P1''))
       = Some (Some 1)
   \<and> current_time (before_refresh 5 eviction_fresh) = 5
   \<and> map_of (transports (advance_to 5 eviction_fresh)) (''P1'', ''P1'') = None
   \<and> map_of (active_transports (advance_to 5 eviction_fresh)) (''P1'', ''P1'') = None
   \<and> applied_by_ops [Advance 1, AdvanceTo 8, AdvanceTo 3] (advance_to 5 eviction_fresh) = [3]
   \<and> map_of (active_transports
        (run_ops [Advance 1, AdvanceTo 8, AdvanceTo 3] (advance_to 5 eviction_fresh)))
        (''P1'', ''P1'') = None"
proof -
  let ?t = "\<lparr>tr_product_id = ''P1'', tr_entity_id = [], tr_from_machine = Some ''M1'',
      tr_to_machine = Some ''M2'', tr_start_time = 0, tr_end_time = Some 1\<rparr>"
  let ?cs = "[Advance 1, AdvanceTo 8, AdvanceTo 3]"
  have s0: "eviction_fresh = run_ops [] (SimulationController_init eviction_data)"
    by (simp add: eviction_fresh_def)
  have m: "map_of (transports (before_refresh 5 eviction_fresh)) (''P1'', ''P1'') = Some ?t"
    by code_simp
  have e: "tr_end_time ?t = Some 1" by simp
  have c: "float_add 1 grace < current_time (before_refresh 5 eviction_fresh)"
    by code_simp
  have c5: "current_time (before_refresh 5 eviction_fresh) = 5"
    by code_simp
  have a: "applied_by_ops ?cs (advance_to 5 eviction_fresh) = [3]"
    by code_simp
  have ns: "\<forall>i \<in> set (applied_by_ops ?cs (advance_to 5 eviction_fresh)).
              \<not> is_start_for (''P1'', ''P1'') (events eviction_data ! i)"
    by code_simp
  have n: "3 \<le> length ?cs" by simp
  from eviction_permanent [OF eviction_data_ok s0 m e c ns n] eviction_data_ok m c5 a
  show ?thesis by simp
qed

text \<open>
  The claim as it was stated fails: on the third log the refresh of \<open>advance_to 5\<close> evicts
  P1, which ended at 1, and the log has no TRANSPORT\_START for P1 after its first event;
  yet after \<open>seek 0.5\<close>, which resets and replays that first event, P1 is in the snapshot
  again.
\<close>

theorem eviction_undone_by_backward_seek:
  "map_option tr_end_time
       (map_of (transports (before_refresh 5 eviction_fresh)) (''P1'', ''P1'')) = Some (Some 1)
   \<and> float_add 1 grace < current_time (before_refresh 5 eviction_fresh)
   \<and> map_of (transports (advance_to 5 eviction_fresh)) (''P1'', ''P1'') = None
   \<and> map_of (active_transports (advance_to 5 eviction_fresh)) (''P1'', ''P1'') = None
   \<and> filter (is_start_for (''P1'', ''P1'')) (drop 1 (events eviction_data)) = []
   \<and> map_of (active_transports (seek (1 / 2) (advance_to 5 eviction_fresh))) (''P1'', ''P1'')
       \<noteq> None"
  by code_simp

section \<open>Incremental playback against a full replay\<close>

lemma machine_states_apply_event_cong:
  "machine_states s = machine_states s' \<Longrightarrow>
   machine_states (apply_event e s) = machine_states (apply_event e s')"
  by (simp add: apply_event_def Let_def)

lemma machine_states_fold_cong:
  "machine_states s = machine_states s' \<Longrightarrow>
   machine_states (fold apply_event es s) = machine_states (fold apply_event es s')"
proof (induction es arbitrary: s s')
  case Nil
  then show ?case by simp
next
  case (Cons e es)
  have "machine_states (apply_event e s) = machine_states (apply_event e s')"
    using Cons.prems by (rule machine_states_apply_event_cong)
  then have "machine_states (fold apply_event es (apply_event e s))
               = machine_states (fold apply_event es (apply_event e s'))"
    by (rule Cons.IH)
  then show ?case by simp
qed

lemma sub_registryD:
  "sub_registry a b \<Longrightarrow> map_of a k = Some t \<Longrightarrow> map_of b k = Some t"
  unfolding sub_registry_def by blast

lemma sub_registry_refl [simp]: "sub_registry a a"
  by (simp add: sub_registry_def)

lemma sub_registry_trans: "sub_registry a b \<Longrightarrow> sub_registry b c \<Longrightarrow> sub_registry a c"
  unfolding sub_registry_def by blast

lemma sub_registry_update:
  "sub_registry a b \<Longrightarrow> sub_registry (AList.update k v a) (AList.update k v b)"
  by (simp add: sub_registry_def update_conv')

lemma sub_registry_delete:
  "sub_registry a b \<Longrightarrow> sub_registry (AList.delete k a) (AList.delete k b)"
  by (simp add: sub_registry_def delete_conv')

lemma sub_registry_update_right:
  "sub_registry a b \<Longrightarrow> map_of a k = None \<Longrightarrow> sub_registry a (AList.update k v b)"
  by (auto simp: sub_registry_def update_conv')

lemma sub_registry_delete_right:
  "sub_registry a b \<Longrightarrow> map_of a k = None \<Longrightarrow> sub_registry a (AList.delete k b)"
  by (auto simp: sub_registry_def delete_conv')

lemma sub_registry_handle_transport:
  assumes "sub_registry (transports s) (transports s')"
  shows "sub_registry (transports (handle_transport e s)) (transports (handle_transport e s'))"
proof (cases "map_of (transports s) (transport_key e)")
  case None
  show ?thesis
    using assms None
    by (cases "map_of (transports s') (transport_key e)")
       (simp_all add: handle_transport_def Let_def sub_registry_update
          sub_registry_update_right sub_registry_delete_right)
next
  case (Some t)
  then have "map_of (transports s') (transport_key e) = Some t"
    using assms sub_registryD by blast
  then show ?thesis
    using assms Some
    by (simp add: handle_transport_def Let_def sub_registry_update sub_registry_delete)
qed

lemma sub_registry_apply_event:
  "sub_registry (transports s) (transports s') \<Longrightarrow>
   sub_registry (transports (apply_event e s)) (transports (apply_event e s'))"
  by (simp add: transports_apply_event sub_registry_handle_transport)

lemma sub_registry_fold:
  "sub_registry (transports s) (transports s') \<Longrightarrow>
   sub_registry (transports (fold apply_event es s)) (transports (fold apply_event es s'))"
  by (induction es arbitrary: s s') (simp_all add: sub_registry_apply_event)

lemma map_of_kept_Some:
  "map_of al k = Some t \<Longrightarrow> \<not> expired now t \<Longrightarrow> map_of (kept now al) k = Some t"
  by (induction al) (auto simp: kept_def)

lemma map_of_kept_SomeD:
  "map_of (kept now al) k = Some t \<Longrightarrow> distinct (map fst al) \<Longrightarrow>
   map_of al k = Some t \<and> \<not> expired now t"
proof -
  assume a: "map_of (kept now al) k = Some t" and d: "distinct (map fst al)"
  have "(k, t) \<in> set (kept now al)" using a by (rule map_of_SomeD)
  then have "(k, t) \<in> set al" "\<not> expired now t" by (auto simp: kept_def)
  then show ?thesis using d by simp
qed

lemma sub_registry_kept:
  assumes "sub_registry a b" and "distinct (map fst a)"
  shows "sub_registry (kept now a) (kept now b)"
  unfolding sub_registry_def
proof (intro allI impI)
  fix k t
  assume "map_of (kept now a) k = Some t"
  then have "map_of a k = Some t \<and> \<not> expired now t"
    using assms(2) by (rule map_of_kept_SomeD)
  then show "map_of (kept now b) k = Some t"
    using sub_registryD [OF assms(1)] by (simp add: map_of_kept_Some)
qed

lemma sub_registry_kept_self: "distinct (map fst a) \<Longrightarrow> sub_registry (kept now a) a"
  unfolding sub_registry_def using map_of_kept_SomeD by blast

lemma sub_registry_clone:
  "sub_registry a b \<Longrightarrow>
   sub_registry (map (\<lambda>kt. (fst kt, clone_transport (snd kt))) a)
     (map (\<lambda>kt. (fst kt, clone_transport (snd kt))) b)"
proof -
  have m: "map_of (map (\<lambda>kt. (fst kt, clone_transport (snd kt))) al) k
             = map_option clone_transport (map_of al k)" for al :: "(TransportKey \<times> Transport) list" and k
    by (induction al) auto
  show "sub_registry a b \<Longrightarrow> ?thesis"
    by (auto simp: sub_registry_def m)
qed

lemma start_le_end:
  assumes "SimulationData_init evs = Inr d"
  shows "start_time d \<le> end_time d"
proof -
  let ?es = "sort_key time_min evs"
  have ne: "?es \<noteq> []" and s: "start_time d = time_min (hd ?es)"
    and e: "end_time d = time_min (last ?es)"
    using assms by (auto simp: SimulationData_init_def Let_def split: if_splits)
  have srt: "sorted (map time_min ?es)" by (rule sorted_sort_key)
  have "map time_min ?es ! 0 \<le> map time_min ?es ! (length (map time_min ?es) - 1)"
    using ne by (intro sorted_nth_mono [OF srt]) (simp_all add: sort_key_Nil_iff)
  then show ?thesis
    using ne by (simp add: s e hd_conv_nth last_conv_nth sort_key_Nil_iff)
qed

lemma reset_eq_init: "reset s = SimulationController_init (data s)"
  by (simp add: reset_def SimulationController_init_def)

lemma init_fields [simp]:
  "data (SimulationController_init d) = d"
  "pointer (SimulationController_init d) = 0"
  "current_time (SimulationController_init d) = start_time d"
  "transports (SimulationController_init d) = []"
  by (simp_all add: SimulationController_init_def reset_def)

lemma replay_0 [simp]: "replay d 0 = SimulationController_init d"
  by (simp add: replay_def)

lemma fwd_inv_init:
  "start_time d \<le> end_time d \<Longrightarrow> fwd_inv d (SimulationController_init d)"
  by (simp add: fwd_inv_def reg_ok_init)

lemma due_init:
  "due c (SimulationController_init d) = takeWhile (\<lambda>e. time_min e \<le> c) (events d)"
  by (simp add: due_def)

lemma take_due:
  assumes "\<forall>e \<in> set (take (pointer s) (events (data s))). time_min e \<le> c"
  shows "take (pointer s) (events (data s)) @ due c s
           = takeWhile (\<lambda>e. time_min e \<le> c) (events (data s))"
proof -
  let ?evs = "events (data s)" and ?p = "pointer s"
  have "takeWhile (\<lambda>e. time_min e \<le> c) (take ?p ?evs @ drop ?p ?evs)
          = take ?p ?evs @ takeWhile (\<lambda>e. time_min e \<le> c) (drop ?p ?evs)"
    using assms by (intro takeWhile_append2) simp
  then show ?thesis by (simp add: due_def)
qed

lemma replay_takeWhile:
  "replay d (length (takeWhile P (events d))) =
     fold apply_event (takeWhile P (events d)) (SimulationController_init d)"
  unfolding replay_def using takeWhile_eq_take [of P "events d"] by simp

lemma transports_advance_to:
  "reg_ok s \<Longrightarrow>
   transports (advance_to t s) =
     kept (clamp_time (data s) t)
       (transports (fold apply_event (due (clamp_time (data s) t) s) s))"
  using reg_ok_before_refresh [of s t]
  by (simp add: advance_to_before_refresh refresh_distinct transports_before_refresh)

lemma active_transports_advance_to:
  "reg_ok s \<Longrightarrow>
   active_transports (advance_to t s) =
     map (\<lambda>kt. (fst kt, clone_transport (snd kt)))
       (kept (clamp_time (data s) t)
          (transports (fold apply_event (due (clamp_time (data s) t) s) s)))"
  using reg_ok_before_refresh [of s t]
  by (simp add: advance_to_before_refresh refresh_distinct transports_before_refresh)

lemma advance_to_fwd:
  assumes inv: "fwd_inv d s" and le: "current_time s \<le> clamp_time d t"
  shows "pointer (advance_to t s) = pointer (advance_to t (SimulationController_init d))
       \<and> current_time (advance_to t s) = current_time (advance_to t (SimulationController_init d))
       \<and> machine_states (advance_to t s)
           = machine_states (advance_to t (SimulationController_init d))
       \<and> sub_registry (active_transports (advance_to t s))
           (active_transports (advance_to t (SimulationController_init d)))
       \<and> fwd_inv d (advance_to t s)"
proof -
  let ?F = "SimulationController_init d"
  let ?c = "clamp_time d t"
  let ?P = "\<lambda>e. time_min e \<le> ?c"
  let ?evs = "events d"
  let ?p = "pointer s"
  let ?n = "length (takeWhile ?P ?evs)"
  let ?B = "transports (fold apply_event (due ?c s) s)"
  let ?BF = "transports (replay d ?n)"
  have ds: "data s = d" and ple: "?p \<le> length ?evs" and ok: "reg_ok s"
    and ms: "machine_states s = machine_states (replay d ?p)"
    and sr: "sub_registry (transports s) (transports (replay d ?p))"
    and old: "\<forall>e \<in> set (take ?p ?evs). time_min e \<le> current_time s"
    using inv by (simp_all add: fwd_inv_def)
  have pre: "\<forall>e \<in> set (take ?p (events (data s))). time_min e \<le> ?c"
    using old le ds by fastforce
  have td: "take ?p ?evs @ due ?c s = takeWhile ?P ?evs"
    using take_due [OF pre] ds by simp
  have "length (take ?p ?evs @ due ?c s) = ?n" using td by simp
  then have len: "?p + length (due ?c s) = ?n" using ple by simp
  have pr: "pointer (advance_to t s) = ?n"
    using len ds by (simp add: pointer_advance_to)
  have pf: "pointer (advance_to t ?F) = ?n"
    by (simp add: pointer_advance_to due_init)
  have rn: "replay d ?n = fold apply_event (due ?c s) (replay d ?p)"
  proof -
    have "replay d ?n = fold apply_event (take ?p ?evs @ due ?c s) ?F"
      by (simp add: replay_takeWhile td)
    then show ?thesis by (simp add: replay_def)
  qed
  have rf: "replay d ?n = fold apply_event (due ?c ?F) ?F"
    by (simp add: replay_takeWhile due_init)
  have msr: "machine_states (advance_to t s) = machine_states (replay d ?n)"
    using machine_states_fold_cong [OF ms, of "due ?c s"] ds
    by (simp add: machine_states_advance_to rn)
  have msf: "machine_states (advance_to t ?F) = machine_states (replay d ?n)"
    by (simp add: machine_states_advance_to rf)
  have sB: "sub_registry ?B ?BF"
    using sub_registry_fold [OF sr, of "due ?c s"] by (simp add: rn)
  have dB: "distinct (map fst ?B)"
    using reg_ok_fold [OF ok, of "due ?c s"] by (simp add: reg_ok_def)
  have tr: "transports (advance_to t s) = kept ?c ?B"
    using ok ds by (simp add: transports_advance_to)
  have ar: "active_transports (advance_to t s)
              = map (\<lambda>kt. (fst kt, clone_transport (snd kt))) (kept ?c ?B)"
    using ok ds by (simp add: active_transports_advance_to)
  have af: "active_transports (advance_to t ?F)
              = map (\<lambda>kt. (fst kt, clone_transport (snd kt))) (kept ?c ?BF)"
    using reg_ok_init [of d] by (simp add: active_transports_advance_to rf)
  have sa: "sub_registry (active_transports (advance_to t s))
              (active_transports (advance_to t ?F))"
    unfolding ar af using sB dB by (intro sub_registry_clone sub_registry_kept)
  have cend: "?c \<le> end_time d" by (simp add: clamp_time_def)
  have tk: "take ?n ?evs = takeWhile ?P ?evs"
    by (rule takeWhile_eq_take [symmetric])
  have new: "\<forall>e \<in> set (take ?n ?evs). time_min e \<le> ?c"
    unfolding tk by (auto dest: set_takeWhileD)
  have nle: "?n \<le> length ?evs" by (rule length_takeWhile_le)
  have st: "sub_registry (kept ?c ?B) ?BF"
    using sub_registry_kept_self [OF dB] sB by (rule sub_registry_trans)
  have ct: "current_time (advance_to t s) = ?c" using ds by simp
  have i1: "data (advance_to t s) = d" using ds by simp
  have i2: "current_time (advance_to t s) \<le> end_time d" using cend ds by simp
  have i3: "pointer (advance_to t s) \<le> length ?evs" unfolding pr by (rule nle)
  have i4: "\<forall>e \<in> set (take (pointer (advance_to t s)) ?evs).
              time_min e \<le> current_time (advance_to t s)"
    unfolding pr ct by (rule new)
  have i5: "machine_states (advance_to t s)
              = machine_states (replay d (pointer (advance_to t s)))"
    unfolding pr by (rule msr)
  have i6: "sub_registry (transports (advance_to t s))
              (transports (replay d (pointer (advance_to t s))))"
    unfolding pr tr by (rule st)
  have i7: "reg_ok (advance_to t s)" using ok by (rule reg_ok_advance_to)
  have inv': "fwd_inv d (advance_to t s)"
    unfolding fwd_inv_def using i1 i2 i3 i4 i5 i6 i7 by blast
  show ?thesis
    using pr pf msr msf sa inv' ds by simp
qed

lemma double_end_data_ok: "SimulationData_init double_end_log = Inr double_end_data"
  by (simp add: double_end_data_def double_end_log_def mk_event_def SimulationData_init_def)

lemma clamp_ge:
  "start_time d \<le> end_time d \<Longrightarrow> c \<le> end_time d \<Longrightarrow> c \<le> t \<Longrightarrow> c \<le> clamp_time d t"
  by (simp add: clamp_time_def)

lemma clamp_ge_start: "start_time d \<le> end_time d \<Longrightarrow> start_time d \<le> clamp_time d t"
  by (simp add: clamp_time_def)

lemma seek_fwd:
  assumes se: "start_time d \<le> end_time d" and inv: "fwd_inv d s"
  shows "pointer (seek t s) = pointer (advance_to t (SimulationController_init d))
       \<and> current_time (seek t s) = current_time (advance_to t (SimulationController_init d))
       \<and> machine_states (seek t s)
           = machine_states (advance_to t (SimulationController_init d))
       \<and> sub_registry (active_transports (seek t s))
           (active_transports (advance_to t (SimulationController_init d)))
       \<and> fwd_inv d (seek t s)"
proof (cases "t < current_time s")
  case True
  have ds: "data s = d" using inv by (simp add: fwd_inv_def)
  have sk: "seek t s = advance_to t (SimulationController_init d)"
    using True ds by (simp add: seek_def reset_eq_init)
  have "current_time (SimulationController_init d) \<le> clamp_time d t"
    using se by (simp add: clamp_ge_start)
  then show ?thesis
    unfolding sk by (rule advance_to_fwd [OF fwd_inv_init [OF se]])
next
  case False
  have sk: "seek t s = advance_to t s" using False by (simp add: seek_def)
  have "current_time s \<le> end_time d" using inv by (simp add: fwd_inv_def)
  then have "current_time s \<le> clamp_time d t"
    using se False by (intro clamp_ge) simp_all
  then show ?thesis
    unfolding sk by (rule advance_to_fwd [OF inv])
qed

lemma reach_fwd_inv:
  assumes se: "start_time d \<le> end_time d" and r: "reach_fwd d s"
  shows "fwd_inv d s"
  using r
proof (induction rule: reach_fwd.induct)
  case fresh
  show ?case using se by (rule fwd_inv_init)
next
  case (reset s)
  then have "data s = d" by (simp add: fwd_inv_def)
  then show ?case using se by (simp add: reset_eq_init fwd_inv_init)
next
  case (seek s t)
  then show ?case using seek_fwd [OF se, of s t] by simp
next
  case (advance_to s t)
  have "current_time s \<le> end_time d" using advance_to.IH by (simp add: fwd_inv_def)
  then have "current_time s \<le> clamp_time d t"
    using se advance_to.hyps by (intro clamp_ge) simp_all
  then show ?case using advance_to_fwd [OF advance_to.IH] by simp
next
  case (advance s delta)
  have "current_time s \<le> end_time d" using advance.IH by (simp add: fwd_inv_def)
  then have "current_time s \<le> clamp_time d (current_time s + delta)"
    using se advance.hyps by (intro clamp_ge) simp_all
  then show ?case using advance_to_fwd [OF advance.IH] by (simp add: advance_def)
qed

section \<open>Logs that end no transport twice\<close>

lemma missing_expiredD:
  "missing_expired now a b \<Longrightarrow> map_of b k = Some t \<Longrightarrow> map_of a k = None \<Longrightarrow> expired now t"
  unfolding missing_expired_def by blast

lemma ends_once_append:
  "ends_once (xs @ ys) s = (ends_once xs s \<and> ends_once ys (fold apply_event xs s))"
  by (induction xs arbitrary: s) simp_all

lemma end_ok_cong: "transports s = transports s' \<Longrightarrow> end_ok e s = end_ok e s'"
  by (simp add: end_ok_def)

lemma expired_mono: "expired now t \<Longrightarrow> now \<le> now' \<Longrightarrow> expired now' t"
  by (auto simp: expired_def split: option.splits)

lemma missing_expired_mono:
  "missing_expired now a b \<Longrightarrow> now \<le> now' \<Longrightarrow> missing_expired now' a b"
  unfolding missing_expired_def using expired_mono by blast

lemma expired_no_end: "tr_end_time t = None \<Longrightarrow> \<not> expired now t"
  by (simp add: expired_def)

lemma missing_expired_handle_transport:
  assumes sub: "sub_registry (transports s) (transports s')"
    and me: "missing_expired now (transports s) (transports s')"
    and ok: "end_ok e s'"
  shows "missing_expired now (transports (handle_transport e s))
           (transports (handle_transport e s'))"
proof (cases "map_of (transports s') (transport_key e)")
  case None
  then have n: "map_of (transports s) (transport_key e) = None"
    using sub by (cases "map_of (transports s) (transport_key e)")
      (auto dest: sub_registryD)
  show ?thesis
    using me None n
    by (auto simp: missing_expired_def handle_transport_def Let_def update_conv')
next
  case (Some t)
  show ?thesis
  proof (cases "map_of (transports s) (transport_key e)")
    case None
    have ex: "expired now t" using me Some None by (rule missing_expiredD)
    then have ne: "event e \<noteq> ''TRANSPORT_END''"
      using ok Some expired_no_end [of t now] by (auto simp: end_ok_def)
    show ?thesis
      using me Some None ne
      by (auto simp: missing_expired_def handle_transport_def Let_def update_conv'
          delete_conv')
  next
    case (Some t')
    show ?thesis
      using me Some \<open>map_of (transports s') (transport_key e) = Some t\<close>
      by (auto simp: missing_expired_def handle_transport_def Let_def update_conv'
          delete_conv')
  qed
qed

lemma missing_expired_apply_event:
  "sub_registry (transports s) (transports s') \<Longrightarrow>
   missing_expired now (transports s) (transports s') \<Longrightarrow> end_ok e s' \<Longrightarrow>
   missing_expired now (transports (apply_event e s)) (transports (apply_event e s'))"
  by (simp add: transports_apply_event missing_expired_handle_transport)

lemma missing_expired_fold:
  "sub_registry (transports s) (transports s') \<Longrightarrow>
   missing_expired now (transports s) (transports s') \<Longrightarrow> ends_once es s' \<Longrightarrow>
   missing_expired now (transports (fold apply_event es s)) (transports (fold apply_event es s'))"
proof (induction es arbitrary: s s')
  case Nil
  then show ?case by simp
next
  case (Cons e es)
  have ok: "end_ok e s'" and rest: "ends_once es (apply_event e s')"
    using Cons.prems(3) by simp_all
  have a: "sub_registry (transports (apply_event e s)) (transports (apply_event e s'))"
    using Cons.prems(1) by (rule sub_registry_apply_event)
  have b: "missing_expired now (transports (apply_event e s)) (transports (apply_event e s'))"
    using Cons.prems(1,2) ok by (rule missing_expired_apply_event)
  show ?case using Cons.IH [OF a b rest] by simp
qed

lemma kept_eq:
  assumes sub: "sub_registry a b" and me: "missing_expired now a b"
    and da: "distinct (map fst a)" and db: "distinct (map fst b)"
  shows "map_of (kept now a) = map_of (kept now b)"
proof
  fix k
  show "map_of (kept now a) k = map_of (kept now b) k"
  proof (cases "map_of (kept now b) k")
    case None
    show ?thesis
    proof (cases "map_of (kept now a) k")
      case None
      then show ?thesis using \<open>map_of (kept now b) k = None\<close> by simp
    next
      case (Some t)
      then have "map_of (kept now b) k = Some t"
        using sub_registryD [OF sub_registry_kept [OF sub da]] by blast
      then show ?thesis using None by simp
    qed
  next
    case (Some t)
    then have bt: "map_of b k = Some t" and ne: "\<not> expired now t"
      using map_of_kept_SomeD [OF Some db] by simp_all
    have "map_of a k \<noteq> None" using missing_expiredD [OF me bt] ne by blast
    then obtain t' where at: "map_of a k = Some t'" by auto
    then have "t' = t" using sub_registryD [OF sub at] bt by simp
    then have "map_of (kept now a) k = Some t"
      using at ne by (simp add: map_of_kept_Some)
    then show ?thesis using Some by simp
  qed
qed

lemma missing_expired_kept:
  assumes sub: "sub_registry a b" and me: "missing_expired now a b"
    and da: "distinct (map fst a)"
  shows "missing_expired now (kept now a) b"
  unfolding missing_expired_def
proof (intro allI impI)
  fix k t
  assume h: "map_of b k = Some t \<and> map_of (kept now a) k = None"
  show "expired now t"
  proof (cases "map_of a k")
    case None
    then show ?thesis using missing_expiredD [OF me] h by blast
  next
    case (Some t')
    then have "t' = t" using sub_registryD [OF sub Some] h by simp
    then show ?thesis
      using Some h map_of_kept_Some [of a k t now] by auto
  qed
qed

lemma map_of_clone:
  "map_of (map (\<lambda>kt. (fst kt, clone_transport (snd kt))) al) k
     = map_option clone_transport (map_of al k)"
  by (induction al) auto

lemma ends_once_due:
  assumes "well_ended d" and "data s = d"
  shows "ends_once (due c s) (replay d (pointer s))"
proof -
  let ?evs = "events d" and ?p = "pointer s"
  let ?P = "\<lambda>e. time_min e \<le> c"
  have "ends_once (take ?p ?evs @ drop ?p ?evs) (SimulationController_init d)"
    using assms(1) by (simp add: well_ended_def)
  then have "ends_once (drop ?p ?evs) (replay d ?p)"
    unfolding ends_once_append replay_def by simp
  then have "ends_once (takeWhile ?P (drop ?p ?evs) @ dropWhile ?P (drop ?p ?evs)) (replay d ?p)"
    by simp
  then have "ends_once (takeWhile ?P (drop ?p ?evs)) (replay d ?p)"
    unfolding ends_once_append by simp
  then show ?thesis using assms(2) by (simp add: due_def)
qed

lemma advance_to_fwd_exact:
  assumes we: "well_ended d" and inv: "fwd_inv d s"
    and me: "missing_expired (current_time s) (transports s) (transports (replay d (pointer s)))"
    and le: "current_time s \<le> clamp_time d t"
  shows "map_of (active_transports (advance_to t s))
           = map_of (active_transports (advance_to t (SimulationController_init d)))
       \<and> missing_expired (current_time (advance_to t s)) (transports (advance_to t s))
           (transports (replay d (pointer (advance_to t s))))"
proof -
  let ?F = "SimulationController_init d"
  let ?c = "clamp_time d t"
  let ?P = "\<lambda>e. time_min e \<le> ?c"
  let ?evs = "events d"
  let ?p = "pointer s"
  let ?n = "length (takeWhile ?P ?evs)"
  let ?B = "transports (fold apply_event (due ?c s) s)"
  let ?BF = "transports (replay d ?n)"
  have ds: "data s = d" and ple: "?p \<le> length ?evs" and ok: "reg_ok s"
    and sr: "sub_registry (transports s) (transports (replay d ?p))"
    and old: "\<forall>e \<in> set (take ?p ?evs). time_min e \<le> current_time s"
    using inv by (simp_all add: fwd_inv_def)
  have pre: "\<forall>e \<in> set (take ?p (events (data s))). time_min e \<le> ?c"
    using old le ds by fastforce
  have td: "take ?p ?evs @ due ?c s = takeWhile ?P ?evs"
    using take_due [OF pre] ds by simp
  have "length (take ?p ?evs @ due ?c s) = ?n" using td by simp
  then have len: "?p + length (due ?c s) = ?n" using ple by simp
  have pr: "pointer (advance_to t s) = ?n"
    using len ds by (simp add: pointer_advance_to)
  have ct: "current_time (advance_to t s) = ?c" using ds by simp
  have rn: "replay d ?n = fold apply_event (due ?c s) (replay d ?p)"
  proof -
    have "replay d ?n = fold apply_event (take ?p ?evs @ due ?c s) ?F"
      by (simp add: replay_takeWhile td)
    then show ?thesis by (simp add: replay_def)
  qed
  have rf: "replay d ?n = fold apply_event (due ?c ?F) ?F"
    by (simp add: replay_takeWhile due_init)
  have sB: "sub_registry ?B ?BF"
    using sub_registry_fold [OF sr, of "due ?c s"] by (simp add: rn)
  have mc: "missing_expired ?c (transports s) (transports (replay d ?p))"
    using me le by (rule missing_expired_mono)
  have eo: "ends_once (due ?c s) (replay d ?p)"
    using we ds by (rule ends_once_due)
  have mB: "missing_expired ?c ?B ?BF"
    using missing_expired_fold [OF sr mc eo] by (simp add: rn)
  have dB: "distinct (map fst ?B)"
    using reg_ok_fold [OF ok, of "due ?c s"] by (simp add: reg_ok_def)
  have dBF: "distinct (map fst ?BF)"
    using reg_ok_fold [OF reg_ok_init, of "due ?c ?F" d] by (simp add: reg_ok_def rf)
  have tr: "transports (advance_to t s) = kept ?c ?B"
    using ok ds by (simp add: transports_advance_to)
  have ar: "active_transports (advance_to t s)
              = map (\<lambda>kt. (fst kt, clone_transport (snd kt))) (kept ?c ?B)"
    using ok ds by (simp add: active_transports_advance_to)
  have af: "active_transports (advance_to t ?F)
              = map (\<lambda>kt. (fst kt, clone_transport (snd kt))) (kept ?c ?BF)"
    using reg_ok_init [of d] by (simp add: active_transports_advance_to rf)
  have ke: "map_of (kept ?c ?B) = map_of (kept ?c ?BF)"
    using sB mB dB dBF by (rule kept_eq)
  have eq: "map_of (active_transports (advance_to t s))
              = map_of (active_transports (advance_to t ?F))"
    unfolding ar af by (rule ext) (simp add: map_of_clone ke)
  have mk: "missing_expired ?c (kept ?c ?B) ?BF"
    using sB mB dB by (rule missing_expired_kept)
  have me': "missing_expired (current_time (advance_to t s)) (transports (advance_to t s))
               (transports (replay d (pointer (advance_to t s))))"
    unfolding pr ct tr by (rule mk)
  show ?thesis using eq me' by blast
qed

lemma missing_expired_init:
  "missing_expired now (transports (SimulationController_init d))
     (transports (replay d (pointer (SimulationController_init d))))"
  by (simp add: missing_expired_def)

lemma fwd_exact_init: "start_time d \<le> end_time d \<Longrightarrow> fwd_exact d (SimulationController_init d)"
  unfolding fwd_exact_def using fwd_inv_init missing_expired_init by blast

lemma fwd_exact_advance_to:
  assumes "well_ended d" and "fwd_exact d s" and "current_time s \<le> clamp_time d t"
  shows "fwd_exact d (advance_to t s)
       \<and> map_of (active_transports (advance_to t s))
           = map_of (active_transports (advance_to t (SimulationController_init d)))"
proof -
  have inv: "fwd_inv d s"
    and me: "missing_expired (current_time s) (transports s) (transports (replay d (pointer s)))"
    using assms(2) by (simp_all add: fwd_exact_def)
  show ?thesis
    unfolding fwd_exact_def
    using advance_to_fwd [OF inv assms(3)] advance_to_fwd_exact [OF assms(1) inv me assms(3)]
    by blast
qed

lemma seek_fwd_exact:
  assumes se: "start_time d \<le> end_time d" and we: "well_ended d" and ex: "fwd_exact d s"
  shows "fwd_exact d (seek t s)
       \<and> map_of (active_transports (seek t s))
           = map_of (active_transports (advance_to t (SimulationController_init d)))"
proof (cases "t < current_time s")
  case True
  have ds: "data s = d" using ex by (simp add: fwd_exact_def fwd_inv_def)
  have sk: "seek t s = advance_to t (SimulationController_init d)"
    using True ds by (simp add: seek_def reset_eq_init)
  have "current_time (SimulationController_init d) \<le> clamp_time d t"
    using se by (simp add: clamp_ge_start)
  then show ?thesis
    unfolding sk using fwd_exact_advance_to [OF we fwd_exact_init [OF se]] by blast
next
  case False
  have sk: "seek t s = advance_to t s" using False by (simp add: seek_def)
  have "current_time s \<le> end_time d" using ex by (simp add: fwd_exact_def fwd_inv_def)
  then have "current_time s \<le> clamp_time d t"
    using se False by (intro clamp_ge) simp_all
  then show ?thesis
    unfolding sk by (rule fwd_exact_advance_to [OF we ex])
qed

lemma reach_fwd_exact:
  assumes se: "start_time d \<le> end_time d" and we: "well_ended d" and r: "reach_fwd d s"
  shows "fwd_exact d s"
  using r
proof (induction rule: reach_fwd.induct)
  case fresh
  show ?case using se by (rule fwd_exact_init)
next
  case (reset s)
  then have "data s = d" by (simp add: fwd_exact_def fwd_inv_def)
  then show ?case using se by (simp add: reset_eq_init fwd_exact_init)
next
  case (seek s t)
  then show ?case using seek_fwd_exact [OF se we, of s t] by simp
next
  case (advance_to s t)
  have "current_time s \<le> end_time d"
    using advance_to.IH by (simp add: fwd_exact_def fwd_inv_def)
  then have "current_time s \<le> clamp_time d t"
    using se advance_to.hyps by (intro clamp_ge) simp_all
  then show ?case using fwd_exact_advance_to [OF we advance_to.IH] by simp
next
  case (advance s delta)
  have "current_time s \<le> end_time d"
    using advance.IH by (simp add: fwd_exact_def fwd_inv_def)
  then have "current_time s \<le> clamp_time d (current_time s + delta)"
    using se advance.hyps by (intro clamp_ge) simp_all
  then show ?case using fwd_exact_advance_to [OF we advance.IH] by (simp add: advance_def)
qed

lemma well_ended_scenario: "well_ended scenario_data"
  by code_simp

lemma not_well_ended_double_end: "\<not> well_ended double_end_data"
  by code_simp

section \<open>Seek against a replay from scratch\<close>

text \<open>
  Claim C2, as amended.  For every event log and every target time: a \<open>seek\<close> to a target
  below the current time, from any state, gives exactly the state of a fresh engine after
  one \<open>advance_to\<close> of that target; and from every state reached from a fresh engine by
  \<open>reset\<close>, \<open>seek\<close>, and \<open>advance_to\<close> and \<open>advance\<close> calls that do not ask for an earlier
  time, \<open>seek\<close> gives the current time, pointer and machine states of that fresh replay,
  and every transport of its snapshot is in the snapshot of the fresh replay with the same
  value; when the log ends no transport twice, the two snapshots are equal as
  dictionaries.  On the running example, \<open>seek 3\<close>, \<open>seek 1\<close>, \<open>seek 3\<close> from a fresh engine
  gives the state of a single \<open>advance_to 3\<close>.
\<close>

theorem seek_replay:
  assumes "SimulationData_init evs = Inr d"
  shows "(\<forall>s t. data s = d \<and> t < current_time s \<longrightarrow>
            seek t s = advance_to t (SimulationController_init d))
       \<and> (\<forall>s t. reach_fwd d s \<longrightarrow>
            current_time (seek t s) = current_time (advance_to t (SimulationController_init d))
            \<and> pointer (seek t s) = pointer (advance_to t (SimulationController_init d))
            \<and> machine_states (seek t s)
                = machine_states (advance_to t (SimulationController_init d))
            \<and> (\<forall>k tr. map_of (active_transports (seek t s)) k = Some tr \<longrightarrow>
                  map_of (active_transports (advance_to t (SimulationController_init d))) k
                    = Some tr))
       \<and> (\<forall>s t. reach_fwd d s \<and> well_ended d \<longrightarrow>
            map_of (active_transports (seek t s))
              = map_of (active_transports (advance_to t (SimulationController_init d))))
       \<and> seek 3 (seek 1 (seek 3 scenario_fresh)) = advance_to 3 scenario_fresh"
proof -
  have se: "start_time d \<le> end_time d" using assms by (rule start_le_end)
  have a: "seek t s = advance_to t (SimulationController_init d)"
    if "data s = d \<and> t < current_time s" for s t
    using that by (simp add: seek_def reset_eq_init)
  have b: "current_time (seek t s) = current_time (advance_to t (SimulationController_init d))
         \<and> pointer (seek t s) = pointer (advance_to t (SimulationController_init d))
         \<and> machine_states (seek t s)
             = machine_states (advance_to t (SimulationController_init d))
         \<and> (\<forall>k tr. map_of (active_transports (seek t s)) k = Some tr \<longrightarrow>
               map_of (active_transports (advance_to t (SimulationController_init d))) k
                 = Some tr)"
    if "reach_fwd d s" for s t
    using seek_fwd [OF se reach_fwd_inv [OF se that], of t]
    unfolding sub_registry_def by blast
  have x: "map_of (active_transports (seek t s))
             = map_of (active_transports (advance_to t (SimulationController_init d)))"
    if "reach_fwd d s \<and> well_ended d" for s t
    using that seek_fwd_exact [OF se, of s t] reach_fwd_exact [OF se, of s] by blast
  have c: "seek 3 (seek 1 (seek 3 scenario_fresh)) = advance_to 3 scenario_fresh"
    by code_simp
  show ?thesis using a b x c by blast
qed

theorem seek_replay_witness:
  "SimulationData_init double_end_log = Inr double_end_data
   \<and> current_time (seek 3 double_end_fresh) = 3
   \<and> seek 1 (seek 3 double_end_fresh) = advance_to 1 double_end_fresh
   \<and> machine_states (seek 3 (seek 1 (seek 3 double_end_fresh)))
       = machine_states (advance_to 3 double_end_fresh)
   \<and> pointer (seek 3 (seek 1 (seek 3 double_end_fresh))) = 3
   \<and> active_transports (seek 3 (seek 1 (seek 3 double_end_fresh))) = []
   \<and> SimulationData_init scenario_log = Inr scenario_data
   \<and> well_ended scenario_data
   \<and> map_of (active_transports (seek 15 (seek 7 (seek 12 scenario_fresh))))
       = map_of (active_transports (advance_to 15 scenario_fresh))"
proof -
  note th = seek_replay [OF double_end_data_ok]
  note ts = seek_replay [OF scenario_data_ok]
  have f: "double_end_fresh = SimulationController_init double_end_data"
    by (simp add: double_end_fresh_def)
  have c3: "current_time (seek 3 double_end_fresh) = 3" by code_simp
  have d3: "data (seek 3 double_end_fresh) = double_end_data"
    by (simp add: f seek_def)
  have s1: "seek 1 (seek 3 double_end_fresh) = advance_to 1 double_end_fresh"
    using th d3 c3 unfolding f by simp
  have r: "reach_fwd double_end_data (seek 1 (seek 3 double_end_fresh))"
    unfolding f by (intro reach_fwd.seek reach_fwd.fresh)
  have m: "machine_states (seek 3 (seek 1 (seek 3 double_end_fresh)))
             = machine_states (advance_to 3 double_end_fresh)"
    using th r unfolding f by blast
  have p: "pointer (seek 3 (seek 1 (seek 3 double_end_fresh)))
             = pointer (advance_to 3 double_end_fresh)"
    using th r unfolding f by blast
  have p3: "pointer (advance_to 3 double_end_fresh) = 3" by code_simp
  have e: "active_transports (seek 3 (seek 1 (seek 3 double_end_fresh))) = []" by code_simp
  have rs: "reach_fwd scenario_data (seek 7 (seek 12 scenario_fresh))"
    unfolding scenario_fresh_def by (intro reach_fwd.seek reach_fwd.fresh)
  have q: "map_of (active_transports (seek 15 (seek 7 (seek 12 scenario_fresh))))
             = map_of (active_transports (advance_to 15 scenario_fresh))"
    using ts rs well_ended_scenario unfolding scenario_fresh_def by blast
  show ?thesis
    using double_end_data_ok c3 s1 m p p3 e scenario_data_ok well_ended_scenario q by simp
qed

text \<open>
  The claim as it was stated fails twice.  On a log that ends the transport P1 a second
  time at 3, \<open>seek 3\<close>, \<open>seek 1\<close>, \<open>seek 3\<close> ends with an empty snapshot (the \<open>seek 1\<close>
  evicted P1, so the second end event finds no entry), while a fresh \<open>advance_to 3\<close>
  shows P1.  And after \<open>advance_to 10\<close> and \<open>advance_to 0\<close> on the running example the clock
  is back at 0 with all events up to 10 consumed, so \<open>seek 0\<close> does not reset and M1 stays
  idle, while a fresh \<open>advance_to 0\<close> leaves it processing.
\<close>

theorem seek_replay_counterexample:
  "active_transports (seek 3 (seek 1 (seek 3 double_end_fresh)))
     \<noteq> active_transports (advance_to 3 double_end_fresh)
   \<and> machine_states (seek 0 (advance_to 0 (advance_to 10 scenario_fresh)))
     \<noteq> machine_states (advance_to 0 scenario_fresh)"
  by code_simp

end
